theory Spec2Isabelle
  imports Main "HOL-Library.Word"
begin

section \<open>Label Masking Engine\<close>

text \<open>
  Source: \<^verbatim>\<open>src/functionary/train/custom_datasets.py\<close>, functions
  \<^verbatim>\<open>get_matching_prefix\<close> (lines 42-47) and \<^verbatim>\<open>get_masked_labels\<close>
  (lines 62-111). Token ids and labels are Python integers, hence \<open>int\<close>. The tokenizer
  is external: \<open>prefix_token_ids\<close> stands for the value of
  \<^verbatim>\<open>get_prefix_assistant_token_ids(tokenizer)\<close>, and \<open>ea\<close>, \<open>ef\<close> stand for
  \<^verbatim>\<open>endtoken_2_id[EndToken.assistant]\<close> and
  \<^verbatim>\<open>endtoken_2_id[EndToken.function_call]\<close>.
\<close>

subsection \<open>Definitions\<close>

text \<open>
  \<^verbatim>\<open>get_matching_prefix\<close>: the first prefix, in list order, that the sequence
  starts with; \<open>None\<close> when there is none.
\<close>

fun get_matching_prefix :: "int list list \<Rightarrow> int list \<Rightarrow> int list option" where
  "get_matching_prefix [] sequence_ids = None"
| "get_matching_prefix (prefix # rest) sequence_ids =
     (if length sequence_ids \<ge> length prefix \<and> take (length prefix) sequence_ids = prefix
      then Some prefix
      else get_matching_prefix rest sequence_ids)"

text \<open>
  The inner loop \<^verbatim>\<open>for i in range(index + len(matched_prefix), total_input_leng)\<close>:
  every visited position is unmasked, and the loop breaks at the first end-of-assistant or
  end-of-function-call token. It returns the labels and \<^verbatim>\<open>end_index\<close>, where
  \<open>None\<close> is the source's \<^verbatim>\<open>end_index == -1\<close>.
\<close>

function unmask_until_end ::
  "int \<Rightarrow> int \<Rightarrow> int list \<Rightarrow> nat \<Rightarrow> int list \<Rightarrow> int list \<times> nat option" where
  "unmask_until_end ea ef ids i labels =
     (if i < length ids then
        (if ids ! i = ea \<or> ids ! i = ef then (labels[i := ids ! i], Some i)
         else unmask_until_end ea ef ids (Suc i) (labels[i := ids ! i]))
      else (labels, None))"
  by pat_completeness auto
termination
  by (relation "measure (\<lambda>(ea, ef, ids, i, labels). length ids - i)") auto

declare unmask_until_end.simps [simp del]

text \<open>
  The outer loop \<^verbatim>\<open>while index < total_input_leng\<close>. After a closed span the scan
  resumes at \<^verbatim>\<open>end_index\<close> itself, so with an empty prefix the loop can stay at one
  index for ever; not returning is the value \<open>None\<close>.
\<close>

partial_function (option) scan_loop ::
  "int list list \<Rightarrow> int \<Rightarrow> int \<Rightarrow> int list \<Rightarrow> nat \<Rightarrow> int list \<Rightarrow> int list option" where
  "scan_loop prefix_token_ids ea ef ids index labels =
     (if index < length ids then
        (case get_matching_prefix prefix_token_ids (drop index ids) of
           Some matched_prefix \<Rightarrow>
             (case unmask_until_end ea ef ids (index + length matched_prefix) labels of
                (labels', None) \<Rightarrow> Some labels'
              | (labels', Some end_index) \<Rightarrow>
                  scan_loop prefix_token_ids ea ef ids end_index labels')
         | None \<Rightarrow> scan_loop prefix_token_ids ea ef ids (Suc index) labels)
      else Some labels)"

declare scan_loop.simps [code]

definition get_masked_labels ::
  "int list list \<Rightarrow> int \<Rightarrow> int \<Rightarrow> int list \<Rightarrow> int list option" where
  "get_masked_labels prefix_token_ids ea ef ids =
     scan_loop prefix_token_ids ea ef ids 0 (replicate (length ids) (- 100))"

text \<open>
  The states \<open>(index, labels)\<close> at which the outer loop evaluates its condition, read off
  the loop body: the initial state, the step \<^verbatim>\<open>index += 1\<close> after a failed match, and
  the step \<^verbatim>\<open>index = end_index\<close> after a span that was closed by an end token.
\<close>

inductive scan_reaches ::
  "int list list \<Rightarrow> int \<Rightarrow> int \<Rightarrow> int list \<Rightarrow> nat \<Rightarrow> int list \<Rightarrow> bool"
  for prefix_token_ids ea ef ids where
  scan_start:
    "scan_reaches prefix_token_ids ea ef ids 0 (replicate (length ids) (- 100))"
| scan_advance:
    "scan_reaches prefix_token_ids ea ef ids index labels \<Longrightarrow> index < length ids \<Longrightarrow>
     get_matching_prefix prefix_token_ids (drop index ids) = None \<Longrightarrow>
     scan_reaches prefix_token_ids ea ef ids (Suc index) labels"
| scan_closed_span:
    "scan_reaches prefix_token_ids ea ef ids index labels \<Longrightarrow> index < length ids \<Longrightarrow>
     get_matching_prefix prefix_token_ids (drop index ids) = Some matched_prefix \<Longrightarrow>
     unmask_until_end ea ef ids (index + length matched_prefix) labels =
       (labels', Some end_index) \<Longrightarrow>
     scan_reaches prefix_token_ids ea ef ids end_index labels'"

subsection \<open>Truncated assistant spans\<close>

lemma unmask_until_end_length:
  "unmask_until_end ea ef ids i labels = (labels', r) \<Longrightarrow> length labels' = length labels"
proof (induction ea ef ids i labels rule: unmask_until_end.induct)
  case (1 ea ef ids i labels)
  then show ?case
    by (subst (asm) (2) unmask_until_end.simps) (auto split: if_splits)
qed

lemma unmask_until_end_truncated:
  "length labels = length ids \<Longrightarrow> \<forall>t \<in> set (drop i ids). t \<noteq> ea \<and> t \<noteq> ef \<Longrightarrow>
   unmask_until_end ea ef ids i labels = (take i labels @ drop i ids, None)"
proof (induction ea ef ids i labels rule: unmask_until_end.induct)
  case (1 ea ef ids i labels)
  show ?case
  proof (cases "i < length ids")
    case False
    with "1.prems" show ?thesis
      by (subst unmask_until_end.simps) simp
  next
    case True
    have here: "ids ! i \<noteq> ea \<and> ids ! i \<noteq> ef"
      using "1.prems"(2) True by (metis Cons_nth_drop_Suc list.set_intros(1))
    have rest: "\<forall>t \<in> set (drop (Suc i) ids). t \<noteq> ea \<and> t \<noteq> ef"
      using "1.prems"(2) True by (metis Cons_nth_drop_Suc list.set_intros(2))
    have "unmask_until_end ea ef ids (Suc i) (labels[i := ids ! i]) =
          (take (Suc i) (labels[i := ids ! i]) @ drop (Suc i) ids, None)"
      using "1.IH"[OF True _ _ rest] here "1.prems"(1) by simp
    moreover have
      "take (Suc i) (labels[i := ids ! i]) @ drop (Suc i) ids = take i labels @ drop i ids"
      using True "1.prems"(1)
      by (simp add: take_Suc_conv_app_nth Cons_nth_drop_Suc)
    ultimately show ?thesis
      using True here by (subst unmask_until_end.simps) simp
  qed
qed

lemma scan_reaches_length:
  "scan_reaches prefix_token_ids ea ef ids index labels \<Longrightarrow> length labels = length ids"
  by (induction rule: scan_reaches.induct) (auto dest: unmask_until_end_length)

lemma scan_reaches_result:
  "scan_reaches prefix_token_ids ea ef ids index labels \<Longrightarrow>
   get_masked_labels prefix_token_ids ea ef ids =
     scan_loop prefix_token_ids ea ef ids index labels"
proof (induction rule: scan_reaches.induct)
  case scan_start
  show ?case by (simp add: get_masked_labels_def)
next
  case (scan_advance index labels)
  then show ?case by (subst (asm) scan_loop.simps) simp
next
  case (scan_closed_span index labels matched_prefix labels' end_index)
  then show ?case by (subst (asm) scan_loop.simps) simp
qed

text \<open>
  Claim C1. Whenever the scan stands at an index where a prefix pattern matches and no
  end-of-assistant or end-of-function-call token occurs from the end of the matched prefix
  to the end of the sequence, \<open>get_masked_labels\<close> returns, and its result is the labels
  held at that moment with every position from the end of the matched prefix to the end
  of the sequence set to the token id. Nothing else changes: the loop is left at once, so
  no prefix is matched after the truncated span.
\<close>

theorem get_masked_labels_truncated_span:
  assumes "scan_reaches prefix_token_ids ea ef ids index labels"
    and "index < length ids"
    and "get_matching_prefix prefix_token_ids (drop index ids) = Some matched_prefix"
    and "\<forall>t \<in> set (drop (index + length matched_prefix) ids). t \<noteq> ea \<and> t \<noteq> ef"
  shows "get_masked_labels prefix_token_ids ea ef ids =
           Some (take (index + length matched_prefix) labels @
                 drop (index + length matched_prefix) ids)"
proof -
  have len: "length labels = length ids"
    using assms(1) by (rule scan_reaches_length)
  have "get_masked_labels prefix_token_ids ea ef ids =
          scan_loop prefix_token_ids ea ef ids index labels"
    using assms(1) by (rule scan_reaches_result)
  also have "\<dots> = Some (take (index + length matched_prefix) labels @
                        drop (index + length matched_prefix) ids)"
    using assms(2,3) unmask_until_end_truncated[OF len assms(4)]
    by (subst scan_loop.simps) simp
  finally show ?thesis .
qed

text \<open>
  An instance: two prefix patterns, a first span closed by the end-of-assistant token 100
  at index 4, where the second pattern matches; the tail \<open>[8]\<close> has no end token.
\<close>

theorem get_masked_labels_truncated_span_witness:
  "scan_reaches [[60, 1, 2], [100, 1, 2]] 100 101 [60, 1, 2, 7, 100, 1, 2, 8] 4
     [- 100, - 100, - 100, 7, 100, - 100, - 100, - 100] \<and>
   get_matching_prefix [[60, 1, 2], [100, 1, 2]] (drop 4 [60, 1, 2, 7, 100, 1, 2, 8]) =
     Some [100, 1, 2] \<and>
   get_masked_labels [[60, 1, 2], [100, 1, 2]] 100 101 [60, 1, 2, 7, 100, 1, 2, 8] =
     Some [- 100, - 100, - 100, 7, 100, - 100, - 100, 8]"
proof -
  let ?P = "[[60, 1, 2], [100, 1, 2]] :: int list list"
  let ?ids = "[60, 1, 2, 7, 100, 1, 2, 8] :: int list"
  let ?l0 = "replicate (length ?ids) (- 100) :: int list"
  let ?l1 = "[- 100, - 100, - 100, 7, 100, - 100, - 100, - 100] :: int list"
  have r0: "scan_reaches ?P 100 101 ?ids 0 ?l0"
    by (rule scan_start)
  have m0: "get_matching_prefix ?P (drop 0 ?ids) = Some [60, 1, 2]"
    by code_simp
  have u0: "unmask_until_end 100 101 ?ids (0 + length [60, 1, 2 :: int]) ?l0 = (?l1, Some 4)"
    by code_simp
  have r4: "scan_reaches ?P 100 101 ?ids 4 ?l1"
    by (rule scan_closed_span[OF r0 _ m0 u0]) simp
  have m4: "get_matching_prefix ?P (drop 4 ?ids) = Some [100, 1, 2]"
    by code_simp
  have no_end:
    "\<forall>t \<in> set (drop (4 + length [100, 1, 2 :: int]) ?ids). t \<noteq> 100 \<and> t \<noteq> 101"
    by simp
  have "get_masked_labels ?P 100 101 ?ids =
          Some (take (4 + length [100, 1, 2 :: int]) ?l1 @
                drop (4 + length [100, 1, 2 :: int]) ?ids)"
    by (rule get_masked_labels_truncated_span[OF r4 _ m4 no_end]) simp
  then show ?thesis
    using r4 m4 by simp
qed

section \<open>Sequence Packer\<close>

text \<open>
  Source: \<^verbatim>\<open>merge_data_points_by_length\<close>
  (\<^verbatim>\<open>src/functionary/train/custom_datasets.py\<close>, lines 286-317). Lengths and the
  capacity are Python integers (\<open>int\<close>); positions and indices are \<open>nat\<close>.
\<close>

subsection \<open>Definitions\<close>

text \<open>
  The dictionaries \<^verbatim>\<open>{"length": length, "index": i}\<close>, built by
  \<^verbatim>\<open>enumerate\<close> and then sorted by their index (Python's \<^verbatim>\<open>sorted\<close> is
  stable, as \<open>sort_key\<close> is).
\<close>

record packer_item =
  item_length :: int
  item_index :: nat

definition make_items :: "int list \<Rightarrow> packer_item list" where
  "make_items lengths =
     sort_key item_index
       (map (\<lambda>(i, l). \<lparr>item_length = l, item_index = i\<rparr>) (enumerate 0 lengths))"

text \<open>
  The loop \<^verbatim>\<open>for i in range(len(items))\<close> over the state
  \<^verbatim>\<open>(merges, current_sum, current_list)\<close>; it returns \<^verbatim>\<open>merges\<close> and the
  group still open.
\<close>

function merge_loop ::
  "packer_item list \<Rightarrow> int \<Rightarrow> nat \<Rightarrow> nat list list \<Rightarrow> int \<Rightarrow> nat list \<Rightarrow> nat list list \<times> nat list" where
  "merge_loop items max_length i merges current_sum current_list =
     (if i < length items then
        (let cur_length = item_length (items ! i) in
         if cur_length + current_sum \<le> max_length
         then merge_loop items max_length (Suc i) merges
                (current_sum + item_length (items ! i)) (current_list @ [i])
         else merge_loop items max_length (Suc i) (merges @ [current_list]) cur_length [i])
      else (merges, current_list))"
  by pat_completeness auto
termination
  by (relation "measure (\<lambda>(items, max_length, i, merges, current_sum, current_list). length items - i)") auto

declare merge_loop.simps [simp del]

text \<open>
  After the loop the open group is appended when it is non-empty, and every position is
  mapped back through \<^verbatim>\<open>items[index]["index"]\<close>.
\<close>

definition merge_data_points_by_length :: "int list \<Rightarrow> int \<Rightarrow> nat list list" where
  "merge_data_points_by_length lengths max_length =
     (let items = make_items lengths;
          (merges, current_list) = merge_loop items max_length 0 [] 0 [];
          merges = (if length current_list > 0 then merges @ [current_list] else merges)
      in map (\<lambda>merge. map (\<lambda>index. item_index (items ! index)) merge) merges)"

text \<open>
  The packing policy in the words of the specification, for comparison with the code:
  iterate the sequences in their original order with a running sum and a current group;
  the next sequence joins the current group while
  \<open>running_sum + next_length \<le> capacity\<close>; otherwise the current group is closed and
  a new one starts with that sequence. The group left open at the end is closed when it
  has a member.
\<close>

fun greedy_groups :: "int \<Rightarrow> nat \<Rightarrow> int list \<Rightarrow> int \<Rightarrow> nat list \<Rightarrow> nat list list" where
  "greedy_groups capacity next [] running_sum current = (if current = [] then [] else [current])"
| "greedy_groups capacity next (l # ls) running_sum current =
     (if running_sum + l \<le> capacity
      then greedy_groups capacity (Suc next) ls (running_sum + l) (current @ [next])
      else current # greedy_groups capacity (Suc next) ls l [next])"

definition greedy_pack :: "int list \<Rightarrow> int \<Rightarrow> nat list list" where
  "greedy_pack lengths capacity = greedy_groups capacity 0 lengths 0 []"

text \<open>The closing step \<^verbatim>\<open>if len(current_list) > 0: merges.append(current_list)\<close>.\<close>

definition close_last :: "nat list list \<times> nat list \<Rightarrow> nat list list" where
  "close_last r = (if length (snd r) > 0 then fst r @ [snd r] else fst r)"

subsection \<open>The code packs greedily\<close>

lemma make_items_eq:
  "make_items lengths = map (\<lambda>(i, l). \<lparr>item_length = l, item_index = i\<rparr>) (enumerate 0 lengths)"
proof -
  have "item_index \<circ> (\<lambda>(i, l). \<lparr>item_length = l, item_index = i\<rparr>) = fst"
    by (auto simp: fun_eq_iff)
  then have "sorted (map item_index
               (map (\<lambda>(i, l). \<lparr>item_length = l, item_index = i\<rparr>) (enumerate 0 lengths)))"
    by simp
  then show ?thesis
    unfolding make_items_def by (rule sort_key_id_if_sorted)
qed

lemma length_make_items: "length (make_items lengths) = length lengths"
  by (simp add: make_items_eq)

lemma nth_make_items:
  "i < length lengths \<Longrightarrow> make_items lengths ! i = \<lparr>item_length = lengths ! i, item_index = i\<rparr>"
  by (simp add: make_items_eq nth_enumerate_eq)

lemma map_item_length_make_items: "map item_length (make_items lengths) = lengths"
  by (rule nth_equalityI) (simp_all add: length_make_items nth_make_items)

lemma merge_loop_greedy:
  "close_last (merge_loop items max_length i merges current_sum current_list) =
     merges @ greedy_groups max_length i (drop i (map item_length items)) current_sum current_list"
proof (induction items max_length i merges current_sum current_list rule: merge_loop.induct)
  case (1 items max_length i merges current_sum current_list)
  show ?case
  proof (cases "i < length items")
    case False
    then show ?thesis
      by (subst merge_loop.simps) (simp add: close_last_def)
  next
    case True
    then have d: "drop i (map item_length items) =
                  item_length (items ! i) # drop (Suc i) (map item_length items)"
      by (simp add: Cons_nth_drop_Suc[symmetric])
    show ?thesis
    proof (cases "item_length (items ! i) + current_sum \<le> max_length")
      case fits: True
      then show ?thesis
        using True "1.IH"(1)[OF True refl fits]
        by (subst merge_loop.simps) (simp add: d add.commute)
    next
      case over: False
      then show ?thesis
        using True "1.IH"(2)[OF True refl over]
        by (subst merge_loop.simps) (simp add: d add.commute)
    qed
  qed
qed


lemma merge_data_points_by_length_close_last:
  "merge_data_points_by_length lengths max_length =
     map (map (\<lambda>index. item_index (make_items lengths ! index)))
       (close_last (merge_loop (make_items lengths) max_length 0 [] 0 []))"
  by (simp add: merge_data_points_by_length_def close_last_def Let_def case_prod_beta)

lemma concat_greedy_groups:
  "concat (greedy_groups capacity next ls running_sum current) = current @ [next..<next + length ls]"
proof (induction ls arbitrary: "next" running_sum current)
  case Nil
  show ?case by simp
next
  case (Cons l ls)
  have "[next..<next + length (l # ls)] = next # [Suc next..<Suc next + length ls]"
    by (subst upt_rec) simp
  then show ?case
    by (simp add: Cons.IH)
qed

lemma greedy_groups_bounded:
  "drop next all = ls \<Longrightarrow> \<forall>l \<in> set ls. l \<le> capacity \<Longrightarrow>
   sum_list (map ((!) all) current) = running_sum \<Longrightarrow>
   (current = [] \<and> running_sum = 0) \<or> (current \<noteq> [] \<and> running_sum \<le> capacity) \<Longrightarrow>
   \<forall>g \<in> set (greedy_groups capacity next ls running_sum current).
     g \<noteq> [] \<and> sum_list (map ((!) all) g) \<le> capacity"
proof (induction ls arbitrary: "next" running_sum current)
  case Nil
  then show ?case by auto
next
  case (Cons l ls)
  have nxt: "next < length all"
    using Cons.prems(1) by (metis drop_all list.distinct(1) not_le)
  have here: "all ! next = l" and rest: "drop (Suc next) all = ls"
    using Cons.prems(1) nxt by (simp_all add: Cons_nth_drop_Suc[symmetric])
  have small: "l \<le> capacity" and smalls: "\<forall>l \<in> set ls. l \<le> capacity"
    using Cons.prems(2) by simp_all
  show ?case
  proof (cases "running_sum + l \<le> capacity")
    case True
    have "\<forall>g \<in> set (greedy_groups capacity (Suc next) ls (running_sum + l) (current @ [next])).
            g \<noteq> [] \<and> sum_list (map ((!) all) g) \<le> capacity"
      using Cons.prems(3) here True
      by (intro Cons.IH[OF rest smalls]) simp_all
    then show ?thesis using True by simp
  next
    case False
    then have cur: "current \<noteq> [] \<and> running_sum \<le> capacity"
      using Cons.prems(4) small by auto
    have "\<forall>g \<in> set (greedy_groups capacity (Suc next) ls l [next]).
            g \<noteq> [] \<and> sum_list (map ((!) all) g) \<le> capacity"
      using here small by (intro Cons.IH[OF rest smalls]) simp_all
    then show ?thesis using False cur Cons.prems(3) by simp
  qed
qed

lemma merge_data_points_by_length_greedy:
  "merge_data_points_by_length lengths max_length = greedy_pack lengths max_length"
proof -
  let ?items = "make_items lengths"
  let ?groups = "greedy_groups max_length 0 lengths 0 []"
  have loop: "close_last (merge_loop ?items max_length 0 [] 0 []) = ?groups"
    using merge_loop_greedy[of ?items max_length 0 "[]" 0 "[]"]
    by (simp add: map_item_length_make_items)
  have "\<forall>g \<in> set ?groups. \<forall>index \<in> set g. index < length lengths"
  proof (intro ballI)
    fix g index assume "g \<in> set ?groups" "index \<in> set g"
    then have "index \<in> set (concat ?groups)" by auto
    then show "index < length lengths" by (simp add: concat_greedy_groups)
  qed
  then have "map (map (\<lambda>index. item_index (?items ! index))) ?groups = ?groups"
    by (intro map_idI) (simp add: nth_make_items)
  then show ?thesis
    by (simp add: merge_data_points_by_length_close_last loop greedy_pack_def)
qed

text \<open>
  Claim C4. \<open>merge_data_points_by_length\<close> is the greedy, order-preserving, single-pass
  grouping of the specification: it returns exactly the groups of \<open>greedy_pack\<close>, the groups
  concatenated are the indices \<open>0, 1, \<dots>\<close> in their original order, and lengths
  \<open>[5, 5, 5, 7]\<close> with capacity 10 give \<open>[[0, 1], [2], [3]]\<close>.
\<close>

theorem merge_data_points_by_length_is_greedy:
  "merge_data_points_by_length lengths max_length = greedy_pack lengths max_length \<and>
   concat (merge_data_points_by_length lengths max_length) = [0..<length lengths] \<and>
   merge_data_points_by_length [5, 5, 5, 7] 10 = [[0, 1], [2], [3]]"
proof -
  have "merge_data_points_by_length [5, 5, 5, 7] 10 = [[0, 1], [2], [3]]"
    by code_simp
  then show ?thesis
    by (simp add: merge_data_points_by_length_greedy greedy_pack_def concat_greedy_groups)
qed

section \<open>Attention Block Builder\<close>

text \<open>
  Source: \<^verbatim>\<open>get_causal_mask\<close> and \<^verbatim>\<open>create_mask_from_lengths\<close>
  (\<^verbatim>\<open>src/functionary/train/custom_datasets.py\<close>, lines 320-349). A square tensor is
  the list of its rows. The entries are floats that are only ever stored and read: 0 and
  the fill value \<open>m_value\<close> (the caller passes \<^verbatim>\<open>float("-inf")\<close>), so the entry type is
  any type with a zero. The capacity is \<^verbatim>\<open>tokenizer.model_max_length\<close>.
\<close>

subsection \<open>Definitions\<close>

text \<open>The exceptions of the source that the model keeps as values.\<close>

datatype py_error =
  IndexError | AssertionError | ShapeMismatch | FileNotFoundError | UnboundLocalError |
  TensorOverflow

text \<open>\<^verbatim>\<open>torch.full((n, n), v)\<close>.\<close>

definition full_matrix :: "nat \<Rightarrow> 'a \<Rightarrow> 'a list list" where
  "full_matrix n v = replicate n (replicate n v)"

text \<open>
  \<^verbatim>\<open>get_causal_mask\<close>: entry \<open>(i, j)\<close> is filled with 0 where
  \<^verbatim>\<open>mask_cond[j] < (mask_cond + 1)[i]\<close>, that is \<open>j < i + 1\<close>.
\<close>

definition get_causal_mask :: "nat \<Rightarrow> 'a::zero \<Rightarrow> 'a list list" where
  "get_causal_mask len m_value =
     map (\<lambda>i. map (\<lambda>j. if j < i + 1 then 0 else m_value) [0..<len]) [0..<len]"

text \<open>
  The slice assignment \<^verbatim>\<open>result[a: a + l, a: a + l] = x\<close> for an \<open>l \<times> l\<close> tensor
  \<open>x\<close>. The slice is clipped to the tensor; the assignment needs the shapes to agree or
  \<open>x\<close> to be a single entry that is broadcast, and raises otherwise.
\<close>

definition assign_block :: "'a list list \<Rightarrow> nat \<Rightarrow> nat \<Rightarrow> 'a list list \<Rightarrow> py_error + 'a list list" where
  "assign_block result a l x =
     (let n = length result; lo = min a n; hi = min (a + l) n in
      if hi - lo = l then
        Inr (map (\<lambda>r. map (\<lambda>c. if lo \<le> r \<and> r < hi \<and> lo \<le> c \<and> c < hi
                                then x ! (r - lo) ! (c - lo) else result ! r ! c) [0..<n]) [0..<n])
      else if l = 1 then
        Inr (map (\<lambda>r. map (\<lambda>c. if lo \<le> r \<and> r < hi \<and> lo \<le> c \<and> c < hi
                                then x ! 0 ! 0 else result ! r ! c) [0..<n]) [0..<n])
      else Inl ShapeMismatch)"

text \<open>The loop \<^verbatim>\<open>for length in lengths\<close> with its accumulator \<^verbatim>\<open>acc_leng\<close>.\<close>

fun fill_blocks :: "nat list \<Rightarrow> 'a::zero \<Rightarrow> nat \<Rightarrow> 'a list list \<Rightarrow> py_error + 'a list list" where
  "fill_blocks [] m_value acc_leng result = Inr result"
| "fill_blocks (l # lengths) m_value acc_leng result =
     (case assign_block result acc_leng l (get_causal_mask l m_value) of
        Inl e \<Rightarrow> Inl e
      | Inr result' \<Rightarrow> fill_blocks lengths m_value (acc_leng + l) result')"

text \<open>
  \<^verbatim>\<open>result[k:, :] = v\<close> and \<^verbatim>\<open>result[:, k:] = v\<close>; the source writes the start
  as \<^verbatim>\<open>-pad_length\<close>, which is \<open>max_length - pad_length\<close> for
  \<open>0 < pad_length \<le> max_length\<close>.
\<close>

definition fill_rows_from :: "'a list list \<Rightarrow> nat \<Rightarrow> 'a \<Rightarrow> 'a list list" where
  "fill_rows_from result k v =
     map (\<lambda>r. if k \<le> r then replicate (length (result ! r)) v else result ! r) [0..<length result]"

definition fill_cols_from :: "'a list list \<Rightarrow> nat \<Rightarrow> 'a \<Rightarrow> 'a list list" where
  "fill_cols_from result k v =
     map (\<lambda>row. map (\<lambda>c. if k \<le> c then v else row ! c) [0..<length row]) result"

definition create_mask_from_lengths :: "nat list \<Rightarrow> nat \<Rightarrow> 'a::zero \<Rightarrow> py_error + 'a list list" where
  "create_mask_from_lengths lengths max_length m_value =
     (case fill_blocks lengths m_value 0 (full_matrix max_length m_value) of
        Inl e \<Rightarrow> Inl e
      | Inr result \<Rightarrow>
          (let pad_length = int max_length - int (sum_list lengths) in
           if pad_length > 0
           then Inr (fill_cols_from (fill_rows_from result (nat (int max_length - pad_length)) 0)
                       (nat (int max_length - pad_length)) m_value)
           else Inr result))"

text \<open>Shape of a square tensor, and membership of an entry in one of the diagonal blocks.\<close>

definition square :: "nat \<Rightarrow> 'a list list \<Rightarrow> bool" where
  "square n M = (length M = n \<and> (\<forall>row \<in> set M. length row = n))"

fun in_block :: "nat list \<Rightarrow> nat \<Rightarrow> nat \<Rightarrow> nat \<Rightarrow> bool" where
  "in_block [] acc r c = False"
| "in_block (l # ls) acc r c =
     ((acc \<le> r \<and> r < acc + l \<and> acc \<le> c \<and> c < acc + l) \<or> in_block ls (acc + l) r c)"

subsection \<open>Entries of the mask\<close>

lemma square_nth: "square n M \<Longrightarrow> r < n \<Longrightarrow> length (M ! r) = n"
  by (simp add: square_def)

lemma square_full_matrix: "square n (full_matrix n v)"
  by (simp add: square_def full_matrix_def)

lemma nth_full_matrix: "r < n \<Longrightarrow> c < n \<Longrightarrow> full_matrix n v ! r ! c = v"
  by (simp add: full_matrix_def)

lemma nth_get_causal_mask:
  "i < l \<Longrightarrow> j < l \<Longrightarrow> get_causal_mask l m ! i ! j = (if j \<le> i then 0 else m)"
  by (simp add: get_causal_mask_def less_Suc_eq_le)

lemma assign_block_fits:
  assumes "square n result" "a + l \<le> n"
  shows "\<exists>M. assign_block result a l (get_causal_mask l m) = Inr M \<and> square n M \<and>
           (\<forall>r < n. \<forall>c < n. M ! r ! c =
              (if a \<le> r \<and> r < a + l \<and> a \<le> c \<and> c < a + l
               then (if c \<le> r then 0 else m) else result ! r ! c))"
proof -
  have n: "length result = n" using assms(1) by (simp add: square_def)
  have lo: "min a n = a" and hi: "min (a + l) n = a + l"
    using assms(2) by simp_all
  let ?M = "map (\<lambda>r. map (\<lambda>c. if a \<le> r \<and> r < a + l \<and> a \<le> c \<and> c < a + l
                                then get_causal_mask l m ! (r - a) ! (c - a)
                                else result ! r ! c) [0..<n]) [0..<n]"
  have eq: "assign_block result a l (get_causal_mask l m) = Inr ?M"
    by (simp add: assign_block_def n lo hi Let_def)
  have sq: "square n ?M"
    by (simp add: square_def)
  have ent: "\<forall>r < n. \<forall>c < n. ?M ! r ! c =
              (if a \<le> r \<and> r < a + l \<and> a \<le> c \<and> c < a + l
               then (if c \<le> r then 0 else m) else result ! r ! c)"
    by (auto simp: nth_get_causal_mask)
  show ?thesis
    using eq sq ent by blast
qed

lemma fill_blocks_entries:
  "square n result \<Longrightarrow> acc + sum_list ls \<le> n \<Longrightarrow>
   \<exists>M. fill_blocks ls m acc result = Inr M \<and> square n M \<and>
     (\<forall>r < n. \<forall>c < n. M ! r ! c =
        (if in_block ls acc r c then (if c \<le> r then 0 else m) else result ! r ! c))"
proof (induction ls arbitrary: acc result)
  case Nil
  then show ?case by simp
next
  case (Cons l ls)
  have fits: "acc + l \<le> n" using Cons.prems(2) by simp
  obtain R where R: "assign_block result acc l (get_causal_mask l m) = Inr R" "square n R"
    and Rent: "\<forall>r < n. \<forall>c < n. R ! r ! c =
              (if acc \<le> r \<and> r < acc + l \<and> acc \<le> c \<and> c < acc + l
               then (if c \<le> r then 0 else m) else result ! r ! c)"
    using assign_block_fits[OF Cons.prems(1) fits] by blast
  have "acc + l + sum_list ls \<le> n" using Cons.prems(2) by simp
  from Cons.IH[OF R(2) this]
  obtain M where M: "fill_blocks ls m (acc + l) R = Inr M" "square n M"
    and Ment: "\<forall>r < n. \<forall>c < n. M ! r ! c =
        (if in_block ls (acc + l) r c then (if c \<le> r then 0 else m) else R ! r ! c)"
    by blast
  have "fill_blocks (l # ls) m acc result = Inr M"
    using R(1) M(1) by simp
  moreover have "\<forall>r < n. \<forall>c < n. M ! r ! c =
        (if in_block (l # ls) acc r c then (if c \<le> r then 0 else m) else result ! r ! c)"
    using Ment Rent by simp
  ultimately show ?case using M(2) by blast
qed

lemma in_block_range:
  "in_block ls acc r c \<Longrightarrow> acc \<le> r \<and> r < acc + sum_list ls \<and> acc \<le> c \<and> c < acc + sum_list ls"
  by (induction ls arbitrary: acc) fastforce+

lemma in_block_same:
  "k < length ls \<Longrightarrow> i < ls ! k \<Longrightarrow> j < ls ! k \<Longrightarrow>
   in_block ls acc (acc + sum_list (take k ls) + i) (acc + sum_list (take k ls) + j)"
proof (induction ls arbitrary: acc k)
  case Nil
  then show ?case by simp
next
  case (Cons l ls)
  show ?case
  proof (cases k)
    case 0
    with Cons.prems show ?thesis by simp
  next
    case (Suc k')
    with Cons.prems have "in_block ls (acc + l) (acc + l + sum_list (take k' ls) + i)
                            (acc + l + sum_list (take k' ls) + j)"
      by (intro Cons.IH) simp_all
    then show ?thesis using Suc by (simp add: add.assoc)
  qed
qed

lemma offset_bound:
  "k < length ls \<Longrightarrow> i < ls ! k \<Longrightarrow> sum_list (take k ls) + i < sum_list (ls :: nat list)"
proof (induction ls arbitrary: k)
  case Nil
  then show ?case by simp
next
  case (Cons l ls)
  show ?case
  proof (cases k)
    case 0
    with Cons.prems show ?thesis by simp
  next
    case (Suc k')
    with Cons.prems Cons.IH[of k'] show ?thesis by simp
  qed
qed

lemma in_block_distinct:
  "k < length ls \<Longrightarrow> k' < length ls \<Longrightarrow> k \<noteq> k' \<Longrightarrow> i < ls ! k \<Longrightarrow> j < ls ! k' \<Longrightarrow>
   \<not> in_block ls acc (acc + sum_list (take k ls) + i) (acc + sum_list (take k' ls) + j)"
proof (induction ls arbitrary: acc k k')
  case Nil
  then show ?case by simp
next
  case (Cons l ls)
  show ?case
  proof (cases k)
    case k0: 0
    then obtain k2 where k2: "k' = Suc k2" using Cons.prems(3) by (cases k') auto
    have "\<not> in_block ls (acc + l) (acc + i) (acc + l + sum_list (take k2 ls) + j)"
      using in_block_range[of ls "acc + l" "acc + i"] Cons.prems(4) k0 by auto
    then show ?thesis using k0 k2 Cons.prems by (simp add: add.assoc)
  next
    case k1: (Suc k1)
    show ?thesis
    proof (cases k')
      case 0
      have "\<not> in_block ls (acc + l) (acc + l + sum_list (take k1 ls) + i) (acc + j)"
        using in_block_range[of ls "acc + l" _ "acc + j"] Cons.prems(5) 0 by auto
      then show ?thesis using k1 0 Cons.prems by (simp add: add.assoc)
    next
      case (Suc k2)
      have "\<not> in_block ls (acc + l) (acc + l + sum_list (take k1 ls) + i)
                (acc + l + sum_list (take k2 ls) + j)"
        using Cons.prems k1 Suc by (intro Cons.IH) simp_all
      then show ?thesis using k1 Suc by (simp add: add.assoc)
    qed
  qed
qed

lemma square_fill_rows_from: "square n M \<Longrightarrow> square n (fill_rows_from M k v)"
  by (auto simp: square_def fill_rows_from_def)

lemma square_fill_cols_from: "square n M \<Longrightarrow> square n (fill_cols_from M k v)"
  by (auto simp: square_def fill_cols_from_def)

lemma nth_fill_rows_from:
  "square n M \<Longrightarrow> r < n \<Longrightarrow> c < n \<Longrightarrow>
   fill_rows_from M k v ! r ! c = (if k \<le> r then v else M ! r ! c)"
  by (simp add: square_def fill_rows_from_def)

lemma nth_fill_cols_from:
  "square n M \<Longrightarrow> r < n \<Longrightarrow> c < n \<Longrightarrow>
   fill_cols_from M k v ! r ! c = (if k \<le> c then v else M ! r ! c)"
  by (simp add: square_def fill_cols_from_def)

lemma create_mask_from_lengths_entries:
  assumes "sum_list lengths \<le> max_length"
  shows "\<exists>M. create_mask_from_lengths lengths max_length m = Inr M \<and> square max_length M \<and>
     (\<forall>r < max_length. \<forall>c < max_length. M ! r ! c =
        (if sum_list lengths \<le> c then m
         else if sum_list lengths \<le> r then 0
         else if in_block lengths 0 r c then (if c \<le> r then 0 else m) else m))"
proof -
  let ?n = max_length and ?s = "sum_list lengths"
  obtain R where R: "fill_blocks lengths m 0 (full_matrix ?n m) = Inr R" "square ?n R"
    and Rent: "\<forall>r < ?n. \<forall>c < ?n. R ! r ! c =
        (if in_block lengths 0 r c then (if c \<le> r then 0 else m) else full_matrix ?n m ! r ! c)"
    using fill_blocks_entries[where n = ?n and result = "full_matrix ?n m" and acc = 0
        and ls = lengths and m = m] square_full_matrix[of ?n m] assms
    by auto
  have Rent': "\<forall>r < ?n. \<forall>c < ?n. R ! r ! c =
        (if in_block lengths 0 r c then (if c \<le> r then 0 else m) else m)"
    using Rent by (simp add: nth_full_matrix)
  show ?thesis
  proof (cases "?s < ?n")
    case True
    let ?M = "fill_cols_from (fill_rows_from R ?s 0) ?s m"
    have eq: "create_mask_from_lengths lengths ?n m = Inr ?M"
      using True R(1) by (simp add: create_mask_from_lengths_def Let_def)
    have sq: "square ?n ?M"
      by (intro square_fill_cols_from square_fill_rows_from R(2))
    have "\<forall>r < ?n. \<forall>c < ?n. ?M ! r ! c =
        (if ?s \<le> c then m else if ?s \<le> r then 0
         else if in_block lengths 0 r c then (if c \<le> r then 0 else m) else m)"
      using Rent' R(2)
      by (simp add: nth_fill_cols_from[OF square_fill_rows_from[OF R(2)]] nth_fill_rows_from[OF R(2)])
    then show ?thesis using eq sq by blast
  next
    case False
    then have s: "?s = ?n" using assms by simp
    have eq: "create_mask_from_lengths lengths ?n m = Inr R"
      using s R(1) by (simp add: create_mask_from_lengths_def Let_def)
    have "\<forall>r < ?n. \<forall>c < ?n. R ! r ! c =
        (if ?s \<le> c then m else if ?s \<le> r then 0
         else if in_block lengths 0 r c then (if c \<le> r then 0 else m) else m)"
      using Rent' s by simp
    then show ?thesis using eq R(2) by blast
  qed
qed

text \<open>
  Claim C3, as amended. For segment lengths whose sum is at most the capacity, the mask is
  built without error, is a square of the capacity's size, and: inside the segment at
  cumulative offset \<open>O\<close> with length \<open>L\<close>, entry \<open>(O + i, O + j)\<close> is 0 when \<open>j \<le> i\<close>
  and the fill value otherwise; every entry whose row and column lie in two distinct
  segments is the fill value; every padding row is 0 at every column that is not a padding
  column; every padding column is the fill value in every row, the padding rows included.
\<close>

theorem create_mask_from_lengths_structure:
  assumes "sum_list lengths \<le> max_length"
  shows "\<exists>M. create_mask_from_lengths lengths max_length m_value = Inr M \<and>
     length M = max_length \<and> (\<forall>row \<in> set M. length row = max_length) \<and>
     (\<forall>k < length lengths. \<forall>i < lengths ! k. \<forall>j < lengths ! k.
        M ! (sum_list (take k lengths) + i) ! (sum_list (take k lengths) + j) =
          (if j \<le> i then 0 else m_value)) \<and>
     (\<forall>k < length lengths. \<forall>k' < length lengths. k \<noteq> k' \<longrightarrow>
        (\<forall>i < lengths ! k. \<forall>j < lengths ! k'.
           M ! (sum_list (take k lengths) + i) ! (sum_list (take k' lengths) + j) = m_value)) \<and>
     (\<forall>r < max_length. \<forall>c < sum_list lengths. sum_list lengths \<le> r \<longrightarrow> M ! r ! c = 0) \<and>
     (\<forall>r < max_length. \<forall>c < max_length. sum_list lengths \<le> c \<longrightarrow> M ! r ! c = m_value)"
proof -
  let ?s = "sum_list lengths"
  obtain M where M: "create_mask_from_lengths lengths max_length m_value = Inr M"
    and sq: "square max_length M"
    and ent: "\<And>r c. r < max_length \<Longrightarrow> c < max_length \<Longrightarrow> M ! r ! c =
        (if ?s \<le> c then m_value
         else if ?s \<le> r then 0
         else if in_block lengths 0 r c then (if c \<le> r then 0 else m_value) else m_value)"
    using create_mask_from_lengths_entries[OF assms, of m_value] by blast
  have same: "M ! (sum_list (take k lengths) + i) ! (sum_list (take k lengths) + j) =
          (if j \<le> i then 0 else m_value)"
    if "k < length lengths" "i < lengths ! k" "j < lengths ! k" for k i j
  proof -
    have bi: "sum_list (take k lengths) + i < ?s" and bj: "sum_list (take k lengths) + j < ?s"
      using that by (simp_all add: offset_bound)
    have "in_block lengths 0 (sum_list (take k lengths) + i) (sum_list (take k lengths) + j)"
      using in_block_same[OF that, of 0] by simp
    then show ?thesis
      using ent[of "sum_list (take k lengths) + i" "sum_list (take k lengths) + j"] bi bj assms
      by simp
  qed
  have cross: "M ! (sum_list (take k lengths) + i) ! (sum_list (take k' lengths) + j) = m_value"
    if "k < length lengths" "k' < length lengths" "k \<noteq> k'" "i < lengths ! k" "j < lengths ! k'"
    for k k' i j
  proof -
    have bi: "sum_list (take k lengths) + i < ?s" and bj: "sum_list (take k' lengths) + j < ?s"
      using that by (simp_all add: offset_bound)
    have "\<not> in_block lengths 0 (sum_list (take k lengths) + i) (sum_list (take k' lengths) + j)"
      using in_block_distinct[OF that, of 0] by simp
    then show ?thesis
      using ent[of "sum_list (take k lengths) + i" "sum_list (take k' lengths) + j"] bi bj assms
      by simp
  qed
  have rows: "M ! r ! c = 0" if "r < max_length" "c < ?s" "?s \<le> r" for r c
    using ent[of r c] that assms by simp
  have cols: "M ! r ! c = m_value" if "r < max_length" "c < max_length" "?s \<le> c" for r c
    using ent[of r c] that by simp
  show ?thesis
    using M sq same cross rows cols unfolding square_def by blast
qed

text \<open>An instance: segments of lengths 2 and 1 in a capacity of 4, fill value \<open>- 1\<close>.\<close>

theorem create_mask_from_lengths_structure_witness:
  "sum_list [2, 1] \<le> (4 :: nat) \<and>
   create_mask_from_lengths [2, 1] 4 (- 1 :: int) =
     Inr [[0, - 1, - 1, - 1], [0, 0, - 1, - 1], [- 1, - 1, 0, - 1], [0, 0, 0, - 1]]"
proof -
  have h: "sum_list [2, 1] \<le> (4 :: nat)" by simp
  have "create_mask_from_lengths [2, 1] 4 (- 1 :: int) =
     Inr [[0, - 1, - 1, - 1], [0, 0, - 1, - 1], [- 1, - 1, 0, - 1], [0, 0, 0, - 1]]"
    by code_simp
  with h create_mask_from_lengths_structure[OF h, of "- 1 :: int"] show ?thesis by simp
qed

text \<open>
  The claim as stated asks for padding rows that are entirely 0. With one segment of
  length 1 in a capacity of 2, row 1 is a padding row, and its entry in the padding
  column 1 is the fill value: the column assignment is the later of the two.
\<close>

theorem create_mask_from_lengths_padding_corner:
  "sum_list [1] \<le> (2 :: nat) \<and>
   create_mask_from_lengths [1] 2 (- 1 :: int) = Inr [[0, - 1], [0, - 1]] \<and>
   [[0, - 1], [0, - 1 :: int]] ! 1 ! 1 \<noteq> 0"
  by code_simp

section \<open>Packed dataset\<close>

text \<open>
  Source: \<^verbatim>\<open>is_valid_labels\<close>, \<^verbatim>\<open>remove_invalid_label_items\<close>,
  \<^verbatim>\<open>merge_data_points\<close> and \<^verbatim>\<open>PackedDataset.pack_data_points\<close>
  (\<^verbatim>\<open>src/functionary/train/custom_datasets.py\<close>, lines 352-436).
\<close>

subsection \<open>Definitions\<close>

text \<open>
  An array of a data point is a Python list of unbounded integers (as the tokenizer
  returns it with \<^verbatim>\<open>return_tensor=False\<close>, and as \<^verbatim>\<open>json.loads\<close> reads it) or
  an \<^verbatim>\<open>int64\<close> tensor (after \<^verbatim>\<open>torch.tensor\<close>), whose entries are 64-bit words
  read as signed numbers; \<^verbatim>\<open>is_valid_labels\<close> branches on which.
\<close>

datatype int_array = PyList "int list" | Tensor "64 word list"

fun elems :: "int_array \<Rightarrow> int list" where
  "elems (PyList xs) = xs"
| "elems (Tensor ws) = map sint ws"

text \<open>
  \<^verbatim>\<open>torch.tensor\<close> of a list of Python integers: an \<^verbatim>\<open>int64\<close> tensor, and the
  error \<^verbatim>\<open>Overflow when unpacking long\<close> when an integer does not fit.
\<close>

definition int64_values :: "int list \<Rightarrow> bool" where
  "int64_values xs = list_all (\<lambda>x. - (2 ^ 63) \<le> x \<and> x < 2 ^ 63) xs"

definition torch_tensor :: "int list \<Rightarrow> py_error + int_array" where
  "torch_tensor xs =
     (if int64_values xs then Inr (Tensor (map word_of_int xs)) else Inl TensorOverflow)"

text \<open>
  A data point is the dictionary with the keys \<^verbatim>\<open>input_ids\<close>, \<^verbatim>\<open>labels\<close> and
  \<^verbatim>\<open>attention_mask\<close> that \<^verbatim>\<open>prepare_training_inputs_batch\<close> builds. Of the tokenizer
  the code reads \<^verbatim>\<open>model_max_length\<close>, \<^verbatim>\<open>padding_side\<close> and \<^verbatim>\<open>pad_token_id\<close>.
\<close>

record data_point =
  dp_input_ids :: int_array
  dp_labels :: int_array
  dp_attention_mask :: int_array

record tokenizer =
  model_max_length :: nat
  padding_side :: string
  pad_token_id :: int

text \<open>
  \<^verbatim>\<open>is_valid_labels\<close>: for a list, whether some label differs from \<open>- 100\<close>; for a
  tensor, whether \<^verbatim>\<open>sum(labels + 100)\<close> is not 0, where the additions are those of
  \<^verbatim>\<open>int64\<close> tensors and wrap around.
\<close>

fun is_valid_labels :: "int_array \<Rightarrow> bool" where
  "is_valid_labels (PyList ls) = (length (filter (\<lambda>label. label \<noteq> - 100) ls) \<noteq> 0)"
| "is_valid_labels (Tensor ws) = (sum_list (map (\<lambda>label. label + 100) ws) \<noteq> 0)"

definition remove_invalid_label_items :: "data_point list \<Rightarrow> data_point list" where
  "remove_invalid_label_items data_points =
     filter (\<lambda>dp. is_valid_labels (dp_labels dp)) data_points"

text \<open>
  The state of a \<^verbatim>\<open>PackedDataset\<close>: \<^verbatim>\<open>self.data_points\<close>, and
  \<^verbatim>\<open>self.lengths\<close> and \<^verbatim>\<open>self.groups\<close>, which exist only once
  \<^verbatim>\<open>pack_data_points\<close> has run.
\<close>

record packed_dataset =
  ds_data_points :: "data_point list"
  ds_lengths :: "nat list option"
  ds_groups :: "nat list list option"

definition empty_dataset :: packed_dataset where
  "empty_dataset = \<lparr>ds_data_points = [], ds_lengths = None, ds_groups = None\<rparr>"

definition pack_data_points :: "tokenizer \<Rightarrow> data_point list \<Rightarrow> packed_dataset" where
  "pack_data_points tok data_points =
     (let valid_data_points = remove_invalid_label_items data_points;
          lengths = map (\<lambda>item. length (elems (dp_input_ids item))) valid_data_points;
          groups = merge_data_points_by_length (map int lengths) (int (model_max_length tok))
      in \<lparr>ds_data_points = valid_data_points, ds_lengths = Some lengths, ds_groups = Some groups\<rparr>)"

text \<open>
  The loop of \<^verbatim>\<open>merge_data_points\<close> over the group's data points;
  \<^verbatim>\<open>labels[0] = -100\<close> raises on an empty list.
\<close>

fun concat_data_points ::
  "data_point list \<Rightarrow> int list \<Rightarrow> nat list \<Rightarrow> int list \<Rightarrow>
   py_error + (int list \<times> nat list \<times> int list)" where
  "concat_data_points [] input_ids lengths label_ids = Inr (input_ids, lengths, label_ids)"
| "concat_data_points (item # rest) input_ids lengths label_ids =
     (let ls = elems (dp_labels item) in
      if ls = [] then Inl IndexError
      else concat_data_points rest (input_ids @ elems (dp_input_ids item))
             (lengths @ [length (elems (dp_input_ids item))]) (label_ids @ ls[0 := - 100]))"

text \<open>
  \<^verbatim>\<open>merge_data_points\<close>. The source passes \<^verbatim>\<open>float("-inf")\<close> as the fill value; it
  is the parameter \<open>neg_inf\<close> here. \<^verbatim>\<open>torch.unsqueeze(attention_mask, 0)\<close> wraps the
  mask in a leading dimension of size 1.
\<close>

record 'a packed_item =
  pk_input_ids :: "int list"
  pk_labels :: "int list"
  pk_attention_mask :: "'a list list list"

definition merge_data_points ::
  "'a::zero \<Rightarrow> data_point list \<Rightarrow> tokenizer \<Rightarrow> py_error + 'a packed_item" where
  "merge_data_points neg_inf data_points tok =
     (case concat_data_points data_points [] [] [] of
        Inl e \<Rightarrow> Inl e
      | Inr (input_ids, lengths, label_ids) \<Rightarrow>
          (case create_mask_from_lengths lengths (model_max_length tok) neg_inf of
             Inl e \<Rightarrow> Inl e
           | Inr attention_mask \<Rightarrow>
               (let pad_leng = int (model_max_length tok) - int (length input_ids);
                    pads = replicate (nat pad_leng) (pad_token_id tok);
                    ignores = replicate (nat pad_leng) (- 100);
                    input_ids' = (if padding_side tok = ''right''
                                  then input_ids @ pads else pads @ input_ids);
                    label_ids' = (if padding_side tok = ''right''
                                  then label_ids @ ignores else ignores @ label_ids)
                in if length input_ids' = length label_ids' \<and>
                      length label_ids' = length attention_mask
                   then Inr \<lparr>pk_input_ids = input_ids', pk_labels = label_ids',
                             pk_attention_mask = [attention_mask]\<rparr>
                   else Inl AssertionError)))"

subsection \<open>Capacity of the groups\<close>

lemma groups_within_capacity:
  assumes "\<forall>l \<in> set lengths. l \<le> max_length"
  shows "\<forall>g \<in> set (merge_data_points_by_length lengths max_length).
           g \<noteq> [] \<and> sum_list (map ((!) lengths) g) \<le> max_length"
  unfolding merge_data_points_by_length_greedy greedy_pack_def
  using assms by (intro greedy_groups_bounded) simp_all

lemma groups_indices_in_range:
  "g \<in> set (merge_data_points_by_length lengths max_length) \<Longrightarrow> i \<in> set g \<Longrightarrow>
   i < length lengths"
proof -
  assume "g \<in> set (merge_data_points_by_length lengths max_length)" "i \<in> set g"
  then have "i \<in> set (concat (merge_data_points_by_length lengths max_length))"
    by auto
  then show ?thesis
    by (simp add: merge_data_points_by_length_greedy greedy_pack_def concat_greedy_groups)
qed

lemma sum_list_map_int_nth:
  "\<forall>i \<in> set g. i < length ls \<Longrightarrow>
   sum_list (map ((!) (map int ls)) g) = int (sum_list (map ((!) ls) g))"
  by (induction g) simp_all

text \<open>
  Where no single length exceeds the capacity, as after the truncation that the tokenizer
  call and \<^verbatim>\<open>PackedDataset.load\<close> apply, every group is non-empty and within the
  capacity.
\<close>

lemma pack_data_points_within_capacity:
  assumes small: "\<forall>item \<in> set data_points.
        length (elems (dp_input_ids item)) \<le> model_max_length tok"
  shows "\<exists>ls groups. ds_lengths (pack_data_points tok data_points) = Some ls \<and>
         ds_groups (pack_data_points tok data_points) = Some groups \<and>
         (\<forall>g \<in> set groups. g \<noteq> [] \<and> sum_list (map ((!) ls) g) \<le> model_max_length tok)"
proof -
  let ?valid = "remove_invalid_label_items data_points"
  let ?ls = "map (\<lambda>item. length (elems (dp_input_ids item))) ?valid"
  let ?groups = "merge_data_points_by_length (map int ?ls) (int (model_max_length tok))"
  have "set ?valid \<subseteq> set data_points"
    by (auto simp: remove_invalid_label_items_def)
  then have "\<forall>l \<in> set (map int ?ls). l \<le> int (model_max_length tok)"
    using small by auto
  then have bound: "\<forall>g \<in> set ?groups.
      g \<noteq> [] \<and> sum_list (map ((!) (map int ?ls)) g) \<le> int (model_max_length tok)"
    by (rule groups_within_capacity)
  have "\<forall>g \<in> set ?groups. g \<noteq> [] \<and> sum_list (map ((!) ?ls) g) \<le> model_max_length tok"
  proof
    fix g assume g: "g \<in> set ?groups"
    then have "\<forall>i \<in> set g. i < length ?ls"
      using groups_indices_in_range[of g "map int ?ls"] by auto
    then have "sum_list (map ((!) (map int ?ls)) g) = int (sum_list (map ((!) ?ls) g))"
      by (rule sum_list_map_int_nth)
    then show "g \<noteq> [] \<and> sum_list (map ((!) ?ls) g) \<le> model_max_length tok"
      using bound g by auto
  qed
  then show ?thesis
    by (simp add: pack_data_points_def Let_def)
qed

text \<open>
  Claim C7 at a failing input. For the single length 11 and the capacity 10,
  \<open>merge_data_points_by_length\<close> returns two groups: an empty one, and the group of index
  0, whose length 11 is over the capacity. Nothing is asserted on the way, and
  \<open>pack_data_points\<close> stores the same groups for one data point of three tokens in a
  capacity of 2. The group over the capacity fails only when it is merged, in the mask
  builder; the empty group is merged without an error into an item that is all padding.
\<close>

theorem merge_data_points_by_length_overlong:
  "merge_data_points_by_length [11] 10 = [[], [0]] \<and>
   sum_list (map ((!) [11 :: int]) [0]) > 10 \<and>
   ds_groups (pack_data_points
     \<lparr>model_max_length = 2, padding_side = ''right'', pad_token_id = 0\<rparr>
     [\<lparr>dp_input_ids = PyList [7, 8, 9], dp_labels = PyList [- 100, 8, 9],
        dp_attention_mask = PyList [1, 1, 1]\<rparr>]) = Some [[], [0]] \<and>
   merge_data_points (- 1 :: int)
     [\<lparr>dp_input_ids = PyList [7, 8, 9], dp_labels = PyList [- 100, 8, 9],
        dp_attention_mask = PyList [1, 1, 1]\<rparr>]
     \<lparr>model_max_length = 2, padding_side = ''right'', pad_token_id = 0\<rparr> =
     Inl ShapeMismatch \<and>
   merge_data_points (- 1 :: int) []
     \<lparr>model_max_length = 2, padding_side = ''right'', pad_token_id = 0\<rparr> =
     Inr \<lparr>pk_input_ids = [0, 0], pk_labels = [- 100, - 100],
          pk_attention_mask = [[[- 1, - 1], [- 1, - 1]]]\<rparr>"
  by code_simp

subsection \<open>Padding side\<close>

text \<open>
  Claim C8 at a failing input. With \<^verbatim>\<open>padding_side = "left"\<close> and one sequence \<open>[7]\<close>
  in a capacity of 2, the token ids are padded in front, \<open>[pad, 7]\<close>, while the mask keeps
  the segment's block at position 0 and treats position 1, where the token is, as padding:
  column 1 is the fill value in every row.
\<close>

theorem merge_data_points_left_padding:
  "merge_data_points (- 1 :: int)
     [\<lparr>dp_input_ids = PyList [7], dp_labels = PyList [7], dp_attention_mask = PyList [1]\<rparr>]
     \<lparr>model_max_length = 2, padding_side = ''left'', pad_token_id = 0\<rparr> =
   Inr \<lparr>pk_input_ids = [0, 7], pk_labels = [- 100, - 100],
        pk_attention_mask = [[[0, - 1], [0, - 1]]]\<rparr>"
  by code_simp

section \<open>Dataset Cache\<close>

text \<open>
  Source: \<^verbatim>\<open>PackedDataset.__init__\<close>, \<^verbatim>\<open>read_max_length_from_cached\<close>,
  \<^verbatim>\<open>is_loadable_cached\<close>, \<^verbatim>\<open>PackedDataset.load\<close> and
  \<^verbatim>\<open>DirectPackedDataset.__init__\<close>
  (\<^verbatim>\<open>src/functionary/train/custom_datasets.py\<close>, lines 417-521). A cache folder is
  what the code reads of it: the records of \<^verbatim>\<open>inputs.jsonl\<close> and the
  \<^verbatim>\<open>max_length\<close> of \<^verbatim>\<open>meta_info.json\<close>, each \<open>None\<close> when the file does not
  exist. The encoding of the raw data by the external tokenizer is the parameter
  \<open>original_datapoints\<close>; writing the cache back to disk is outside the model.
\<close>

subsection \<open>Definitions\<close>

record cache_folder =
  inputs_jsonl :: "data_point list option"
  meta_info_json :: "int option"

definition read_max_length_from_cached :: "cache_folder \<Rightarrow> py_error + int" where
  "read_max_length_from_cached folder =
     (case meta_info_json folder of None \<Rightarrow> Inl FileNotFoundError | Some m \<Rightarrow> Inr m)"

definition is_loadable_cached :: "tokenizer \<Rightarrow> cache_folder \<Rightarrow> py_error + bool" where
  "is_loadable_cached tok folder =
     (case read_max_length_from_cached folder of
        Inl e \<Rightarrow> Inl e
      | Inr cached_max_length \<Rightarrow>
          Inr (if cached_max_length \<ge> int (model_max_length tok) then True else False))"

text \<open>
  One line of \<^verbatim>\<open>inputs.jsonl\<close> in \<^verbatim>\<open>PackedDataset.load\<close>: every array of the
  record is cut, \<^verbatim>\<open>item[key][: model_max_length]\<close>, and made a tensor. The lines are
  read in order, and the first error ends the loading.
\<close>

definition load_item :: "nat \<Rightarrow> data_point \<Rightarrow> py_error + data_point" where
  "load_item n item =
     (case torch_tensor (take n (elems (dp_input_ids item))) of
        Inl e \<Rightarrow> Inl e
      | Inr a \<Rightarrow>
          (case torch_tensor (take n (elems (dp_labels item))) of
             Inl e \<Rightarrow> Inl e
           | Inr b \<Rightarrow>
               (case torch_tensor (take n (elems (dp_attention_mask item))) of
                  Inl e \<Rightarrow> Inl e
                | Inr c \<Rightarrow>
                    Inr \<lparr>dp_input_ids = a, dp_labels = b, dp_attention_mask = c\<rparr>)))"

fun load_items :: "nat \<Rightarrow> data_point list \<Rightarrow> py_error + data_point list" where
  "load_items n [] = Inr []"
| "load_items n (item # rest) =
     (case load_item n item of
        Inl e \<Rightarrow> Inl e
      | Inr d \<Rightarrow> (case load_items n rest of Inl e \<Rightarrow> Inl e | Inr ds \<Rightarrow> Inr (d # ds)))"

definition PackedDataset_load :: "tokenizer \<Rightarrow> cache_folder \<Rightarrow> py_error + packed_dataset" where
  "PackedDataset_load tok folder =
     (case read_max_length_from_cached folder of
        Inl e \<Rightarrow> Inl e
      | Inr cached_max_length \<Rightarrow>
          if \<not> cached_max_length \<ge> int (model_max_length tok) then Inl AssertionError
          else (case inputs_jsonl folder of
                  None \<Rightarrow> Inl FileNotFoundError
                | Some items \<Rightarrow>
                    (case load_items (model_max_length tok) items of
                       Inl e \<Rightarrow> Inl e
                     | Inr data_points \<Rightarrow> Inr (pack_data_points tok data_points))))"

definition PackedDataset_init ::
  "tokenizer \<Rightarrow> cache_folder option \<Rightarrow> bool \<Rightarrow> py_error + packed_dataset" where
  "PackedDataset_init tok cached_path ignore_cached =
     (case cached_path of
        None \<Rightarrow> Inr empty_dataset
      | Some folder \<Rightarrow>
          if inputs_jsonl folder \<noteq> None \<and> \<not> ignore_cached then
            (case is_loadable_cached tok folder of
               Inl e \<Rightarrow> Inl e
             | Inr loadable \<Rightarrow>
                 if loadable then PackedDataset_load tok folder else Inr empty_dataset)
          else Inr empty_dataset)"

definition DirectPackedDataset_init ::
  "data_point list \<Rightarrow> tokenizer \<Rightarrow> cache_folder option \<Rightarrow> bool \<Rightarrow> py_error + packed_dataset" where
  "DirectPackedDataset_init original_datapoints tok cached_path ignore_cached =
     (case PackedDataset_init tok cached_path ignore_cached of
        Inl e \<Rightarrow> Inl e
      | Inr ds \<Rightarrow>
          if length (ds_data_points ds) = 0 then Inr (pack_data_points tok original_datapoints)
          else Inr ds)"

subsection \<open>Reuse of a cache\<close>

lemma torch_tensor_elems: "torch_tensor xs = Inr a \<Longrightarrow> elems a = xs"
proof -
  assume t: "torch_tensor xs = Inr a"
  then have fits: "int64_values xs" and a: "a = Tensor (map word_of_int xs)"
    by (auto simp: torch_tensor_def split: if_splits)
  have "sint (word_of_int x :: 64 word) = x" if "x \<in> set xs" for x
  proof -
    have "- (2 ^ 63) \<le> x \<and> x < 2 ^ 63"
      using fits that by (simp add: int64_values_def list_all_iff)
    then show ?thesis
      by (simp add: sint_sbintrunc' signed_take_bit_int_eq_self)
  qed
  then show ?thesis
    using a by (simp add: map_idI)
qed

lemma int64_values_take: "int64_values xs \<Longrightarrow> int64_values (take n xs)"
  by (auto simp: int64_values_def list_all_iff dest: in_set_takeD)

lemma load_item_arrays:
  "load_item n item = Inr d \<Longrightarrow>
   elems (dp_input_ids d) = take n (elems (dp_input_ids item)) \<and>
   elems (dp_labels d) = take n (elems (dp_labels item)) \<and>
   elems (dp_attention_mask d) = take n (elems (dp_attention_mask item))"
  by (auto simp: load_item_def split: sum.splits dest: torch_tensor_elems)

lemma load_items_arrays:
  "load_items n items = Inr loaded \<Longrightarrow>
   length loaded = length items \<and>
   (\<forall>i < length items.
      elems (dp_input_ids (loaded ! i)) = take n (elems (dp_input_ids (items ! i))) \<and>
      elems (dp_labels (loaded ! i)) = take n (elems (dp_labels (items ! i))) \<and>
      elems (dp_attention_mask (loaded ! i)) = take n (elems (dp_attention_mask (items ! i))))"
proof (induction items arbitrary: loaded)
  case Nil
  then show ?case by simp
next
  case (Cons item rest)
  from Cons.prems obtain d ds where d: "load_item n item = Inr d"
    and ds: "load_items n rest = Inr ds" and l: "loaded = d # ds"
    by (auto split: sum.splits)
  note here = load_item_arrays[OF d]
  note there = Cons.IH[OF ds]
  show ?case
    unfolding l using here there by (auto simp: nth_Cons split: nat.splits)
qed

lemma load_items_int64:
  "\<forall>item \<in> set items. int64_values (elems (dp_input_ids item)) \<and>
     int64_values (elems (dp_labels item)) \<and> int64_values (elems (dp_attention_mask item)) \<Longrightarrow>
   \<exists>loaded. load_items n items = Inr loaded"
proof (induction items)
  case Nil
  show ?case by simp
next
  case (Cons item rest)
  then obtain ds where ds: "load_items n rest = Inr ds"
    by auto
  have "\<exists>d. load_item n item = Inr d"
    using Cons.prems by (simp add: load_item_def torch_tensor_def int64_values_take)
  then show ?case
    using ds by auto
qed

text \<open>
  Claim C6, as amended. For a \<^verbatim>\<open>PackedDataset\<close> whose cache folder holds
  \<^verbatim>\<open>inputs.jsonl\<close> and \<^verbatim>\<open>meta_info.json\<close>: the cache is loaded exactly when
  \<^verbatim>\<open>ignore_cached\<close> is false and the cached \<open>max_length\<close> is at least the requested
  one, and otherwise the dataset stays empty. Loading cuts every persisted array to the
  requested \<open>max_length\<close> and makes it a tensor, which succeeds when the persisted numbers
  are 64-bit, and the records so read are filtered and packed.
  \<^verbatim>\<open>DirectPackedDataset\<close> keeps what was loaded exactly when the cache was loaded and
  a data point is left after the filter; in every other case it packs the freshly encoded
  data.
\<close>

theorem PackedDataset_cache_reuse:
  assumes "inputs_jsonl folder = Some items"
    and "meta_info_json folder = Some cached_max_length"
  shows "PackedDataset_init tok (Some folder) ignore_cached =
           (if \<not> ignore_cached \<and> cached_max_length \<ge> int (model_max_length tok)
            then (case load_items (model_max_length tok) items of
                    Inl e \<Rightarrow> Inl e
                  | Inr loaded \<Rightarrow> Inr (pack_data_points tok loaded))
            else Inr empty_dataset) \<and>
         (\<forall>loaded. load_items (model_max_length tok) items = Inr loaded \<longrightarrow>
            length loaded = length items \<and>
            (\<forall>i < length items.
               elems (dp_input_ids (loaded ! i)) =
                 take (model_max_length tok) (elems (dp_input_ids (items ! i))) \<and>
               elems (dp_labels (loaded ! i)) =
                 take (model_max_length tok) (elems (dp_labels (items ! i))) \<and>
               elems (dp_attention_mask (loaded ! i)) =
                 take (model_max_length tok) (elems (dp_attention_mask (items ! i))))) \<and>
         ((\<forall>item \<in> set items. int64_values (elems (dp_input_ids item)) \<and>
             int64_values (elems (dp_labels item)) \<and>
             int64_values (elems (dp_attention_mask item))) \<longrightarrow>
            (\<exists>loaded. load_items (model_max_length tok) items = Inr loaded)) \<and>
         DirectPackedDataset_init original_datapoints tok (Some folder) ignore_cached =
           (if \<not> ignore_cached \<and> cached_max_length \<ge> int (model_max_length tok)
            then (case load_items (model_max_length tok) items of
                    Inl e \<Rightarrow> Inl e
                  | Inr loaded \<Rightarrow>
                      Inr (if ds_data_points (pack_data_points tok loaded) \<noteq> []
                           then pack_data_points tok loaded
                           else pack_data_points tok original_datapoints))
            else Inr (pack_data_points tok original_datapoints))"
proof -
  have init: "PackedDataset_init tok (Some folder) ignore_cached =
           (if \<not> ignore_cached \<and> cached_max_length \<ge> int (model_max_length tok)
            then (case load_items (model_max_length tok) items of
                    Inl e \<Rightarrow> Inl e
                  | Inr loaded \<Rightarrow> Inr (pack_data_points tok loaded))
            else Inr empty_dataset)"
    using assms
    by (simp add: PackedDataset_init_def is_loadable_cached_def
        read_max_length_from_cached_def PackedDataset_load_def)
  have direct: "DirectPackedDataset_init original_datapoints tok (Some folder) ignore_cached =
           (if \<not> ignore_cached \<and> cached_max_length \<ge> int (model_max_length tok)
            then (case load_items (model_max_length tok) items of
                    Inl e \<Rightarrow> Inl e
                  | Inr loaded \<Rightarrow>
                      Inr (if ds_data_points (pack_data_points tok loaded) \<noteq> []
                           then pack_data_points tok loaded
                           else pack_data_points tok original_datapoints))
            else Inr (pack_data_points tok original_datapoints))"
    unfolding DirectPackedDataset_init_def init
    by (simp add: empty_dataset_def split: sum.splits)
  have cut: "\<forall>loaded. load_items (model_max_length tok) items = Inr loaded \<longrightarrow>
            length loaded = length items \<and>
            (\<forall>i < length items.
               elems (dp_input_ids (loaded ! i)) =
                 take (model_max_length tok) (elems (dp_input_ids (items ! i))) \<and>
               elems (dp_labels (loaded ! i)) =
                 take (model_max_length tok) (elems (dp_labels (items ! i))) \<and>
               elems (dp_attention_mask (loaded ! i)) =
                 take (model_max_length tok) (elems (dp_attention_mask (items ! i))))"
    using load_items_arrays by blast
  have ok: "(\<forall>item \<in> set items. int64_values (elems (dp_input_ids item)) \<and>
             int64_values (elems (dp_labels item)) \<and>
             int64_values (elems (dp_attention_mask item))) \<longrightarrow>
            (\<exists>loaded. load_items (model_max_length tok) items = Inr loaded)"
    using load_items_int64 by blast
  show ?thesis
    using init cut ok direct by (intro conjI)
qed

text \<open>
  An instance: a cache written at \<open>max_length\<close> 3 is loaded and cut for a requested
  \<open>max_length\<close> of 2, and is not loaded for a requested \<open>max_length\<close> of 4, where the
  raw data are packed instead.
\<close>

theorem PackedDataset_cache_reuse_witness:
  "PackedDataset_init \<lparr>model_max_length = 2, padding_side = ''right'', pad_token_id = 0\<rparr>
     (Some \<lparr>inputs_jsonl = Some [\<lparr>dp_input_ids = PyList [1, 2, 3],
                dp_labels = PyList [- 100, 2, 3], dp_attention_mask = PyList [1, 1, 1]\<rparr>],
            meta_info_json = Some 3\<rparr>) False =
   Inr \<lparr>ds_data_points = [\<lparr>dp_input_ids = Tensor [1, 2], dp_labels = Tensor [- 100, 2],
                              dp_attention_mask = Tensor [1, 1]\<rparr>],
        ds_lengths = Some [2], ds_groups = Some [[0]]\<rparr> \<and>
   PackedDataset_init \<lparr>model_max_length = 4, padding_side = ''right'', pad_token_id = 0\<rparr>
     (Some \<lparr>inputs_jsonl = Some [\<lparr>dp_input_ids = PyList [1, 2, 3],
                dp_labels = PyList [- 100, 2, 3], dp_attention_mask = PyList [1, 1, 1]\<rparr>],
            meta_info_json = Some 3\<rparr>) False = Inr empty_dataset \<and>
   DirectPackedDataset_init
     [\<lparr>dp_input_ids = PyList [5, 6], dp_labels = PyList [- 100, 6],
        dp_attention_mask = PyList [1, 1]\<rparr>]
     \<lparr>model_max_length = 4, padding_side = ''right'', pad_token_id = 0\<rparr>
     (Some \<lparr>inputs_jsonl = Some [\<lparr>dp_input_ids = PyList [1, 2, 3],
                dp_labels = PyList [- 100, 2, 3], dp_attention_mask = PyList [1, 1, 1]\<rparr>],
            meta_info_json = Some 3\<rparr>) False =
   Inr \<lparr>ds_data_points = [\<lparr>dp_input_ids = PyList [5, 6], dp_labels = PyList [- 100, 6],
                              dp_attention_mask = PyList [1, 1]\<rparr>],
        ds_lengths = Some [2], ds_groups = Some [[0]]\<rparr>"
proof -
  let ?item = "\<lparr>dp_input_ids = PyList [1, 2, 3], dp_labels = PyList [- 100, 2, 3],
                dp_attention_mask = PyList [1, 1, 1]\<rparr>"
  let ?raw = "\<lparr>dp_input_ids = PyList [5, 6], dp_labels = PyList [- 100, 6],
                dp_attention_mask = PyList [1, 1]\<rparr>"
  let ?cut = "\<lparr>dp_input_ids = Tensor [1, 2], dp_labels = Tensor [- 100, 2],
                dp_attention_mask = Tensor [1, 1]\<rparr>"
  let ?folder = "\<lparr>inputs_jsonl = Some [?item], meta_info_json = Some 3\<rparr>"
  let ?tok2 = "\<lparr>model_max_length = 2, padding_side = ''right'', pad_token_id = 0\<rparr>"
  let ?tok4 = "\<lparr>model_max_length = 4, padding_side = ''right'', pad_token_id = 0\<rparr>"
  have i: "inputs_jsonl ?folder = Some [?item]" and m: "meta_info_json ?folder = Some 3"
    by simp_all
  have l: "load_items (model_max_length ?tok2) [?item] = Inr [?cut]"
    by (simp add: load_item_def torch_tensor_def int64_values_def)
  have p: "pack_data_points ?tok2 [?cut] =
      \<lparr>ds_data_points = [?cut], ds_lengths = Some [2], ds_groups = Some [[0]]\<rparr>"
  proof -
    have "merge_data_points_by_length [2] 2 = [[0]]" by code_simp
    then show ?thesis
      by (simp add: pack_data_points_def remove_invalid_label_items_def)
  qed
  have r: "pack_data_points ?tok4 [?raw] =
      \<lparr>ds_data_points = [?raw], ds_lengths = Some [2], ds_groups = Some [[0]]\<rparr>"
  proof -
    have "merge_data_points_by_length [2] 4 = [[0]]" by code_simp
    then show ?thesis
      by (simp add: pack_data_points_def remove_invalid_label_items_def)
  qed
  show ?thesis
    using PackedDataset_cache_reuse[OF i m, of ?tok2 False "[?raw]"]
      PackedDataset_cache_reuse[OF i m, of ?tok4 False "[?raw]"] l p r
    by simp
qed

text \<open>
  The claim as stated fails on this path in two ways. With \<^verbatim>\<open>ignore_cached\<close> set, a
  cache written at \<open>max_length\<close> 3 is not loaded for a requested \<open>max_length\<close> of 2.
  And a cache written at \<open>max_length\<close> 3 is loaded for a requested \<open>max_length\<close> of 1,
  but its only record keeps no label after the cut and is filtered out, so
  \<^verbatim>\<open>DirectPackedDataset\<close> packs the raw data.
\<close>

theorem cache_not_reused_although_large_enough:
  "PackedDataset_init \<lparr>model_max_length = 2, padding_side = ''right'', pad_token_id = 0\<rparr>
     (Some \<lparr>inputs_jsonl = Some [\<lparr>dp_input_ids = PyList [1, 2, 3],
                dp_labels = PyList [- 100, 2, 3], dp_attention_mask = PyList [1, 1, 1]\<rparr>],
            meta_info_json = Some 3\<rparr>) True = Inr empty_dataset \<and>
   DirectPackedDataset_init
     [\<lparr>dp_input_ids = PyList [5], dp_labels = PyList [5], dp_attention_mask = PyList [1]\<rparr>]
     \<lparr>model_max_length = 1, padding_side = ''right'', pad_token_id = 0\<rparr>
     (Some \<lparr>inputs_jsonl = Some [\<lparr>dp_input_ids = PyList [1, 2, 3],
                dp_labels = PyList [- 100, 2, 3], dp_attention_mask = PyList [1, 1, 1]\<rparr>],
            meta_info_json = Some 3\<rparr>) False =
   Inr \<lparr>ds_data_points = [\<lparr>dp_input_ids = PyList [5], dp_labels = PyList [5],
                              dp_attention_mask = PyList [1]\<rparr>],
        ds_lengths = Some [1], ds_groups = Some [[0]]\<rparr>"
proof -
  have g: "merge_data_points_by_length [1] 1 = [[0]]" and e: "merge_data_points_by_length [] 1 = []"
    by code_simp+
  show ?thesis
    using g e
    by (simp add: PackedDataset_init_def DirectPackedDataset_init_def is_loadable_cached_def
        read_max_length_from_cached_def PackedDataset_load_def load_item_def torch_tensor_def
        int64_values_def pack_data_points_def remove_invalid_label_items_def)
qed

section \<open>Autoregressive Decode Loop\<close>

text \<open>
  Source: \<^verbatim>\<open>generate_text_stream\<close> (\<^verbatim>\<open>src/functionary/inference.py\<close>, lines
  116-204). The language model, the logits processors and the sampler are external: the
  function \<open>sample\<close> gives the token chosen after the ids produced so far. \<open>decode\<close> is
  \<^verbatim>\<open>tokenizer.decode\<close>, \<open>eos_token_id\<close> is \<^verbatim>\<open>tokenizer.eos_token_id\<close> (\<open>None\<close>
  when the tokenizer has none), and \<open>input_ids\<close> is the encoded prompt. A generator is
  modelled by the list of the pairs it yields, together with the exception that ends it,
  if one does. A Python string is a \<open>string\<close>; its characters are taken to be code points
  below 256, one \<open>char\<close> each.
\<close>

subsection \<open>Definitions\<close>

text \<open>
  The loop \<^verbatim>\<open>for i in range(max_new_tokens)\<close>: the text increment is the new full
  decode without the previous full decode's length; on a stop token the loop is left
  before the \<^verbatim>\<open>yield\<close>. It returns the pairs yielded and \<^verbatim>\<open>reach_stop_token\<close>.
\<close>

function generation_loop ::
  "(int list \<Rightarrow> int) \<Rightarrow> (int list \<Rightarrow> string) \<Rightarrow> int option list \<Rightarrow> nat \<Rightarrow> nat \<Rightarrow>
   int list \<Rightarrow> (string \<times> string option) list \<Rightarrow> (string \<times> string option) list \<times> bool" where
  "generation_loop sample decode stop_token_ids max_new_tokens i output_ids yielded =
     (if i < max_new_tokens then
        (let token_int = sample output_ids;
             current_output_text = decode output_ids;
             output_ids' = output_ids @ [token_int];
             next_output_text = decode output_ids';
             output = drop (length current_output_text) next_output_text
         in if Some token_int \<in> set stop_token_ids then (yielded, True)
            else generation_loop sample decode stop_token_ids max_new_tokens (Suc i)
                   output_ids' (yielded @ [(output, None)]))
      else (yielded, False))"
  by pat_completeness auto
termination
  by (relation "measure (\<lambda>(sample, decode, stop_token_ids, max_new_tokens, i, output_ids,
        yielded). max_new_tokens - i)") auto

declare generation_loop.simps [simp del]

text \<open>
  After the loop the generator yields the empty increment with the finish reason. The
  statement \<^verbatim>\<open>del past_key_values, out\<close> that follows raises when the loop body never
  ran, since \<^verbatim>\<open>out\<close> is then unbound.
\<close>

definition generate_text_stream ::
  "(int list \<Rightarrow> int) \<Rightarrow> (int list \<Rightarrow> string) \<Rightarrow> int option \<Rightarrow> int list \<Rightarrow> nat \<Rightarrow>
   (string \<times> string option) list \<times> py_error option" where
  "generate_text_stream sample decode eos_token_id input_ids max_new_tokens =
     (let stop_token_ids = [eos_token_id];
          (yielded, reach_stop_token) =
            generation_loop sample decode stop_token_ids max_new_tokens 0 input_ids [];
          finish_reason = (if reach_stop_token then ''stop'' else ''lenghth'')
      in (yielded @ [('''', Some finish_reason)],
          if max_new_tokens = 0 then Some UnboundLocalError else None))"

text \<open>
  The ids held before step \<open>i\<close> of a session, and the text increment computed at step
  \<open>i\<close>, read off the loop body.
\<close>

fun ids_after :: "(int list \<Rightarrow> int) \<Rightarrow> int list \<Rightarrow> nat \<Rightarrow> int list" where
  "ids_after sample input_ids 0 = input_ids"
| "ids_after sample input_ids (Suc i) =
     ids_after sample input_ids i @ [sample (ids_after sample input_ids i)]"

definition increment ::
  "(int list \<Rightarrow> int) \<Rightarrow> (int list \<Rightarrow> string) \<Rightarrow> int list \<Rightarrow> nat \<Rightarrow> string" where
  "increment sample decode input_ids i =
     drop (length (decode (ids_after sample input_ids i)))
       (decode (ids_after sample input_ids (Suc i)))"

subsection \<open>The yielded sequence\<close>

lemma generation_loop_stop:
  "i \<le> k \<Longrightarrow> k < max_new_tokens \<Longrightarrow>
   Some (sample (ids_after sample input_ids k)) \<in> set stop_token_ids \<Longrightarrow>
   \<forall>j. i \<le> j \<and> j < k \<longrightarrow>
     Some (sample (ids_after sample input_ids j)) \<notin> set stop_token_ids \<Longrightarrow>
   generation_loop sample decode stop_token_ids max_new_tokens i
     (ids_after sample input_ids i) yielded =
   (yielded @ map (\<lambda>j. (increment sample decode input_ids j, None)) [i..<k], True)"
proof (induction "k - i" arbitrary: i yielded)
  case 0
  then have "i = k" by simp
  then show ?case
    using "0.prems" by (subst generation_loop.simps) (simp add: Let_def)
next
  case (Suc d)
  then have lt: "i < k" by simp
  then have nostop: "Some (sample (ids_after sample input_ids i)) \<notin> set stop_token_ids"
    using Suc.prems(4) by simp
  have IH: "generation_loop sample decode stop_token_ids max_new_tokens (Suc i)
     (ids_after sample input_ids (Suc i))
     (yielded @ [(increment sample decode input_ids i, None)]) =
   ((yielded @ [(increment sample decode input_ids i, None)]) @
      map (\<lambda>j. (increment sample decode input_ids j, None)) [Suc i..<k], True)"
    using Suc.hyps(2) lt Suc.prems by (intro Suc.hyps(1)) simp_all
  have "[i..<k] = i # [Suc i..<k]"
    using lt by (simp add: upt_conv_Cons)
  then show ?case
    using lt Suc.prems(2) nostop IH
    by (subst generation_loop.simps) (simp add: Let_def increment_def)
qed

lemma generation_loop_exhausted:
  "i \<le> max_new_tokens \<Longrightarrow>
   \<forall>j. i \<le> j \<and> j < max_new_tokens \<longrightarrow>
     Some (sample (ids_after sample input_ids j)) \<notin> set stop_token_ids \<Longrightarrow>
   generation_loop sample decode stop_token_ids max_new_tokens i
     (ids_after sample input_ids i) yielded =
   (yielded @ map (\<lambda>j. (increment sample decode input_ids j, None)) [i..<max_new_tokens],
    False)"
proof (induction "max_new_tokens - i" arbitrary: i yielded)
  case 0
  then have "i = max_new_tokens" by simp
  then show ?case
    by (subst generation_loop.simps) simp
next
  case (Suc d)
  then have lt: "i < max_new_tokens" by simp
  then have nostop: "Some (sample (ids_after sample input_ids i)) \<notin> set stop_token_ids"
    using Suc.prems(2) by simp
  have IH: "generation_loop sample decode stop_token_ids max_new_tokens (Suc i)
     (ids_after sample input_ids (Suc i))
     (yielded @ [(increment sample decode input_ids i, None)]) =
   ((yielded @ [(increment sample decode input_ids i, None)]) @
      map (\<lambda>j. (increment sample decode input_ids j, None)) [Suc i..<max_new_tokens], False)"
    using Suc.hyps(2) lt Suc.prems by (intro Suc.hyps(1)) simp_all
  have "[i..<max_new_tokens] = i # [Suc i..<max_new_tokens]"
    using lt by (simp add: upt_conv_Cons)
  then show ?case
    using lt nostop IH
    by (subst generation_loop.simps) (simp add: Let_def increment_def)
qed

text \<open>
  A session that never samples the stop token yields every increment with finish reason
  \<open>None\<close> and then the empty increment with the finish reason the source spells
  \<^verbatim>\<open>"lenghth"\<close>.
\<close>

lemma generate_text_stream_exhausted:
  assumes "\<forall>j < max_new_tokens. Some (sample (ids_after sample input_ids j)) \<noteq> eos_token_id"
  shows "fst (generate_text_stream sample decode eos_token_id input_ids max_new_tokens) =
           map (\<lambda>j. (increment sample decode input_ids j, None)) [0..<max_new_tokens] @
           [('''', Some ''lenghth'')]"
proof -
  have "generation_loop sample decode [eos_token_id] max_new_tokens 0
          (ids_after sample input_ids 0) [] =
        ([] @ map (\<lambda>j. (increment sample decode input_ids j, None)) [0..<max_new_tokens],
         False)"
    using assms by (intro generation_loop_exhausted) auto
  then show ?thesis
    by (simp add: generate_text_stream_def)
qed

text \<open>
  Claim C10. In a session whose first stop token is sampled at step \<open>k\<close>, the yielded
  sequence is the increments of the steps before \<open>k\<close>, each with finish reason \<open>None\<close>,
  followed at once by the pair of the empty text and \<^verbatim>\<open>"stop"\<close>: the increment computed
  at step \<open>k\<close> is not in it, whatever text it is.
\<close>

theorem generate_text_stream_stop_step_dropped:
  assumes "k < max_new_tokens"
    and "Some (sample (ids_after sample input_ids k)) = eos_token_id"
    and "\<forall>j < k. Some (sample (ids_after sample input_ids j)) \<noteq> eos_token_id"
  shows "fst (generate_text_stream sample decode eos_token_id input_ids max_new_tokens) =
           map (\<lambda>j. (increment sample decode input_ids j, None)) [0..<k] @
           [('''', Some ''stop'')]"
proof -
  have "generation_loop sample decode [eos_token_id] max_new_tokens 0
          (ids_after sample input_ids 0) [] =
        ([] @ map (\<lambda>j. (increment sample decode input_ids j, None)) [0..<k], True)"
    using assms by (intro generation_loop_stop) auto
  then show ?thesis
    by (simp add: generate_text_stream_def)
qed

text \<open>
  An instance: the stop token 2 is sampled at step 2 and decodes to a non-empty text,
  which the stream does not carry.
\<close>

theorem generate_text_stream_stop_step_dropped_witness:
  "increment (\<lambda>ids. if length ids < 3 then 1 else 2)
     (\<lambda>ids. concat (map (\<lambda>t. if t = 2 then ''<eos>'' else ''a'') ids)) [0] 2 = ''<eos>'' \<and>
   fst (generate_text_stream (\<lambda>ids. if length ids < 3 then 1 else 2)
     (\<lambda>ids. concat (map (\<lambda>t. if t = 2 then ''<eos>'' else ''a'') ids)) (Some 2) [0] 5) =
   [(''a'', None), (''a'', None), ('''', Some ''stop'')]"
proof -
  let ?sample = "\<lambda>ids :: int list. if length ids < 3 then 1 else 2 :: int"
  let ?decode = "\<lambda>ids :: int list. concat (map (\<lambda>t. if t = 2 then ''<eos>'' else ''a'') ids)"
  have i0: "ids_after ?sample [0] 0 = [0]"
    and i1: "ids_after ?sample [0] 1 = [0, 1]"
    and i2: "ids_after ?sample [0] 2 = [0, 1, 1]"
    and i3: "ids_after ?sample [0] 3 = [0, 1, 1, 2]"
    by code_simp+
  have k: "(2 :: nat) < 5" by simp
  have stop: "Some (?sample (ids_after ?sample [0] 2)) = Some 2"
    by (simp add: i2)
  have before: "\<forall>j < 2. Some (?sample (ids_after ?sample [0] j)) \<noteq> Some 2"
    using i0 i1 by (auto simp: less_Suc_eq numeral_2_eq_2)
  have incs: "map (\<lambda>j. (increment ?sample ?decode [0] j, None :: string option)) [0..<2] =
              [(''a'', None), (''a'', None)]"
    using i0 i1 i2 by (simp add: increment_def upt_rec numeral_2_eq_2)
  have dropped: "increment ?sample ?decode [0] 2 = ''<eos>''"
    using i2 i3 by (simp add: increment_def numeral_3_eq_3 numeral_2_eq_2)
  show ?thesis
    using generate_text_stream_stop_step_dropped[OF k stop before, of ?decode] incs dropped
    by simp
qed

text \<open>
  Claim C5 at a failing input. A session of two steps that never samples the stop token
  ends with the empty increment paired with the finish reason \<^verbatim>\<open>"lenghth"\<close>, not
  \<^verbatim>\<open>"length"\<close>.
\<close>

theorem generate_text_stream_finish_reason_misspelt:
  "generate_text_stream (\<lambda>ids. 1) (\<lambda>ids. replicate (length ids) (CHR ''a'')) (Some 2) [] 2 =
     ([(''a'', None), (''a'', None), ('''', Some ''lenghth'')], None) \<and>
   ''lenghth'' \<noteq> ''length''"
  by code_simp

section \<open>Streaming Response Classifier\<close>

text \<open>
  Source: \<^verbatim>\<open>generate_stream\<close> (\<^verbatim>\<open>src/functionary/inference.py\<close>, lines 207-265).
\<close>

subsection \<open>Definitions\<close>

text \<open>
  \<^verbatim>\<open>str.lstrip()\<close> and \<^verbatim>\<open>str.strip()\<close> remove the characters for which
  \<^verbatim>\<open>str.isspace\<close> holds; below 256 these are the code points listed.
\<close>

definition is_space :: "char \<Rightarrow> bool" where
  "is_space c = ((of_char c :: nat) \<in> {9, 10, 11, 12, 13, 28, 29, 30, 31, 32, 133, 160})"

definition lstrip :: "string \<Rightarrow> string" where
  "lstrip s = dropWhile is_space s"

definition strip :: "string \<Rightarrow> string" where
  "strip s = rev (dropWhile is_space (rev (dropWhile is_space s)))"

text \<open>
  \<^verbatim>\<open>re.search(r"to=functions\.(?P<f>.+?):", s)\<close>, returning the group \<open>f\<close>. After
  the literal, \<^verbatim>\<open>.+?\<close> takes one character that is not a newline and then as few
  more as possible, each not a newline, until a colon follows. The search tries the
  start positions from the left.
\<close>

fun match_name :: "string \<Rightarrow> string \<Rightarrow> string option" where
  "match_name f [] = None"
| "match_name f (c # cs) =
     (if c = CHR '':'' then Some f
      else if c = CHR 0x0A then None
      else match_name (f @ [c]) cs)"

definition match_at :: "string \<Rightarrow> string option" where
  "match_at s =
     (if take (length ''to=functions.'') s = ''to=functions.'' then
        (case drop (length ''to=functions.'') s of
           [] \<Rightarrow> None
         | c # cs \<Rightarrow> if c = CHR 0x0A then None else match_name [c] cs)
      else None)"

fun re_search :: "string \<Rightarrow> string option" where
  "re_search [] = match_at []"
| "re_search (c # cs) =
     (case match_at (c # cs) of Some f \<Rightarrow> Some f | None \<Rightarrow> re_search cs)"

text \<open>
  The response dictionaries. A key of the delta that may be missing, \<^verbatim>\<open>None\<close> or a
  string is a \<open>json_string\<close>.
\<close>

datatype json_string = Absent | Null | Str string

record function_call =
  fc_arguments :: string
  fc_name :: "string option"

record delta =
  d_role :: string
  d_content :: json_string
  d_function_call :: "function_call option"

record response =
  r_delta :: delta
  r_finish_reason :: "string option"

text \<open>
  The four shapes the source builds: a delta with \<^verbatim>\<open>content\<close>; the opening delta of a
  function call, with \<^verbatim>\<open>content\<close> \<^verbatim>\<open>None\<close> and empty arguments; a delta with
  arguments; and the closing delta, which carries only the role and a finish reason.
\<close>

definition content_response :: "string \<Rightarrow> response" where
  "content_response item =
     \<lparr>r_delta = \<lparr>d_role = ''assistant'', d_content = Str item, d_function_call = None\<rparr>,
      r_finish_reason = None\<rparr>"

definition function_open_response :: "string option \<Rightarrow> response" where
  "function_open_response func_name =
     \<lparr>r_delta = \<lparr>d_role = ''assistant'', d_content = Null,
                 d_function_call = Some \<lparr>fc_arguments = '''', fc_name = func_name\<rparr>\<rparr>,
      r_finish_reason = None\<rparr>"

definition arguments_response :: "string option \<Rightarrow> string \<Rightarrow> response" where
  "arguments_response func_name item =
     \<lparr>r_delta = \<lparr>d_role = ''assistant'', d_content = Absent,
                 d_function_call = Some \<lparr>fc_arguments = item, fc_name = func_name\<rparr>\<rparr>,
      r_finish_reason = None\<rparr>"

definition closing_response :: "string option \<Rightarrow> response" where
  "closing_response finish_reason =
     \<lparr>r_delta = \<lparr>d_role = ''assistant'', d_content = Absent, d_function_call = None\<rparr>,
      r_finish_reason = finish_reason\<rparr>"

text \<open>
  The state of the loop: \<^verbatim>\<open>cur_text\<close>, \<^verbatim>\<open>func_name\<close> and
  \<^verbatim>\<open>response_type\<close>, which is \<^verbatim>\<open>None\<close>, \<^verbatim>\<open>"function"\<close> or \<^verbatim>\<open>"text"\<close>.
\<close>

datatype response_kind = Function | Text

record stream_state =
  cur_text :: string
  func_name :: "string option"
  response_type :: "response_kind option"

text \<open>One pass of the body of \<^verbatim>\<open>for item, finish_reason in generator\<close>.\<close>

definition stream_step ::
  "stream_state \<Rightarrow> string \<times> string option \<Rightarrow> stream_state \<times> response list" where
  "stream_step st x =
     (let item = fst x; finish_reason = snd x;
          st = st\<lparr>cur_text := cur_text st @ item\<rparr>
      in case response_type st of
           None \<Rightarrow>
             if lstrip (cur_text st) = '':\<newline>'' then
               (st\<lparr>response_type := Some Text\<rparr>, [content_response ''''])
             else
               (case re_search (strip (cur_text st)) of
                  Some f \<Rightarrow>
                    (st\<lparr>response_type := Some Function, func_name := Some (strip f)\<rparr>,
                     [function_open_response (Some (strip f))])
                | None \<Rightarrow> (st, []))
         | Some Function \<Rightarrow>
             (st, [if finish_reason = None then arguments_response (func_name st) item
                   else closing_response (Some ''function_call'')])
         | Some Text \<Rightarrow>
             (st, [if finish_reason = None then content_response item
                   else closing_response finish_reason]))"

fun stream_loop :: "stream_state \<Rightarrow> (string \<times> string option) list \<Rightarrow> response list" where
  "stream_loop st [] = []"
| "stream_loop st (x # xs) =
     (case stream_step st x of (st', out) \<Rightarrow> out @ stream_loop st' xs)"

text \<open>
  The loop of \<^verbatim>\<open>generate_stream\<close> over the pairs of a generator, from the initial
  state; and \<^verbatim>\<open>generate_stream\<close> itself, which runs it over
  \<^verbatim>\<open>generate_text_stream\<close> and ends with the exception that generator ends with.
\<close>

definition classify_stream :: "(string \<times> string option) list \<Rightarrow> response list" where
  "classify_stream generator =
     stream_loop \<lparr>cur_text = '''', func_name = None, response_type = None\<rparr> generator"

definition generate_stream ::
  "(int list \<Rightarrow> int) \<Rightarrow> (int list \<Rightarrow> string) \<Rightarrow> int option \<Rightarrow> int list \<Rightarrow> nat \<Rightarrow>
   response list \<times> py_error option" where
  "generate_stream sample decode eos_token_id input_ids max_new_tokens =
     (case generate_text_stream sample decode eos_token_id input_ids max_new_tokens of
        (generator, raised) \<Rightarrow> (classify_stream generator, raised))"

subsection \<open>A session that stays undetermined\<close>

lemma stream_loop_never_determined:
  "response_type st = None \<Longrightarrow>
   \<forall>n \<le> length xs. 0 < n \<longrightarrow>
     lstrip (cur_text st @ concat (map fst (take n xs))) \<noteq> '':\<newline>'' \<and>
     re_search (strip (cur_text st @ concat (map fst (take n xs)))) = None \<Longrightarrow>
   stream_loop st xs = []"
proof (induction xs arbitrary: st)
  case Nil
  show ?case by simp
next
  case (Cons x xs)
  let ?st = "st\<lparr>cur_text := cur_text st @ fst x\<rparr>"
  have one: "lstrip (cur_text st @ fst x) \<noteq> '':\<newline>'' \<and>
             re_search (strip (cur_text st @ fst x)) = None"
    using Cons.prems(2)[rule_format, of 1] by simp
  have step: "stream_step st x = (?st, [])"
    using Cons.prems(1) one by (simp add: stream_step_def Let_def)
  have "\<forall>n \<le> length xs. 0 < n \<longrightarrow>
     lstrip (cur_text ?st @ concat (map fst (take n xs))) \<noteq> '':\<newline>'' \<and>
     re_search (strip (cur_text ?st @ concat (map fst (take n xs)))) = None"
  proof (intro allI impI)
    fix n assume "n \<le> length xs" "0 < n"
    then show "lstrip (cur_text ?st @ concat (map fst (take n xs))) \<noteq> '':\<newline>'' \<and>
     re_search (strip (cur_text ?st @ concat (map fst (take n xs)))) = None"
      using Cons.prems(2)[rule_format, of "Suc n"] by simp
  qed
  then have "stream_loop ?st xs = []"
    using Cons.prems(1) by (intro Cons.IH) simp_all
  then show ?case using step by simp
qed

text \<open>
  While the accumulated text neither is \<^verbatim>\<open>":\n"\<close> after left-trimming nor matches the
  function pattern, nothing is emitted, not even for the pair that carries the finish
  reason.
\<close>

lemma classify_stream_never_determined:
  assumes "\<forall>n \<le> length xs. 0 < n \<longrightarrow>
     lstrip (concat (map fst (take n xs))) \<noteq> '':\<newline>'' \<and>
     re_search (strip (concat (map fst (take n xs)))) = None"
  shows "classify_stream xs = []"
  unfolding classify_stream_def
  using assms by (intro stream_loop_never_determined) simp_all

text \<open>
  Claim C9 at a failing input. The increment \<open>hello\<close> followed by the empty increment with
  finish reason \<^verbatim>\<open>"stop"\<close> leaves the session undetermined, and no delta at all is
  emitted: there is no closing delta. The same holds through \<open>generate_stream\<close> for a
  session of two steps that decodes to \<open>aa\<close>.
\<close>

theorem generate_stream_undetermined_emits_nothing:
  "classify_stream [(''hello'', None), ('''', Some ''stop'')] = [] \<and>
   generate_stream (\<lambda>ids. 1) (\<lambda>ids. replicate (length ids) (CHR ''a'')) (Some 2) [] 2 =
     ([], None)"
  by code_simp

subsection \<open>A function call\<close>

lemma match_name_no_colon: "CHR '':'' \<notin> set cs \<Longrightarrow> match_name f cs = None"
  by (induction cs arbitrary: f) auto

lemma match_at_no_colon: "CHR '':'' \<notin> set s \<Longrightarrow> match_at s = None"
proof -
  assume no: "CHR '':'' \<notin> set s"
  define n where "n = length ''to=functions.''"
  have rest: "(case drop n s of [] \<Rightarrow> None
               | c # cs \<Rightarrow> if c = CHR 0x0A then None else match_name [c] cs) = None"
  proof (cases "drop n s")
    case Nil
    then show ?thesis by simp
  next
    case (Cons c cs)
    have "set (drop n s) \<subseteq> set s"
      by (rule set_drop_subset)
    then have "CHR '':'' \<notin> set cs"
      using no Cons by auto
    then have "match_name [c] cs = None"
      by (rule match_name_no_colon)
    then show ?thesis using Cons by simp
  qed
  show ?thesis
    unfolding match_at_def n_def[symmetric] rest by (rule if_cancel)
qed

lemma re_search_no_colon: "CHR '':'' \<notin> set s \<Longrightarrow> re_search s = None"
proof (induction s)
  case Nil
  show ?case by (simp add: match_at_def)
next
  case (Cons c cs)
  then show ?case
    using match_at_no_colon[of "c # cs"] by simp
qed

lemma set_lstrip: "set (lstrip s) \<subseteq> set s"
  by (auto simp: lstrip_def dest: set_dropWhileD)

lemma set_strip: "set (strip s) \<subseteq> set s"
  by (auto simp: strip_def dest!: set_dropWhileD)

lemma stream_step_no_colon:
  assumes "response_type st = None" and "CHR '':'' \<notin> set (cur_text st @ item)"
  shows "stream_step st (item, r) = (st\<lparr>cur_text := cur_text st @ item\<rparr>, [])"
proof -
  have "CHR '':'' \<notin> set (lstrip (cur_text st @ item))"
    using assms(2) set_lstrip by blast
  then have a: "lstrip (cur_text st @ item) \<noteq> '':\<newline>''"
    by auto
  have "CHR '':'' \<notin> set (strip (cur_text st @ item))"
    using assms(2) set_strip by blast
  then have b: "re_search (strip (cur_text st @ item)) = None"
    by (rule re_search_no_colon)
  show ?thesis
    using assms(1) a b by (simp add: stream_step_def Let_def)
qed

lemma stream_loop_no_colon:
  "response_type st = None \<Longrightarrow> CHR '':'' \<notin> set (cur_text st @ concat pre) \<Longrightarrow>
   stream_loop st (map (\<lambda>t. (t, None)) pre @ rest) =
     stream_loop (st\<lparr>cur_text := cur_text st @ concat pre\<rparr>) rest"
proof (induction pre arbitrary: st)
  case Nil
  then show ?case by simp
next
  case (Cons t pre)
  let ?st = "st\<lparr>cur_text := cur_text st @ t\<rparr>"
  have step: "stream_step st (t, None) = (?st, [])"
    using Cons.prems by (intro stream_step_no_colon) auto
  have "stream_loop ?st (map (\<lambda>t. (t, None)) pre @ rest) =
          stream_loop (?st\<lparr>cur_text := cur_text ?st @ concat pre\<rparr>) rest"
    using Cons.prems by (intro Cons.IH) simp_all
  then show ?case using step by simp
qed

text \<open>
  Claim C2, as amended. Let the first increments be any pieces of
  \<^verbatim>\<open>"to=functions.get_weather:\n"\<close> of which the last holds the colon and the newline
  together, and let two increments \<open>a1\<close>, \<open>a2\<close> and then the empty increment with a
  finish reason follow. The deltas are exactly: the opening function delta with name
  \<open>get_weather\<close> and empty arguments, the arguments delta of \<open>a1\<close>, the arguments delta of
  \<open>a2\<close>, and the closing delta with finish reason \<^verbatim>\<open>"function_call"\<close>, whatever the
  finish reason of the decode loop is.
\<close>

theorem classify_stream_function_call:
  assumes "concat pre @ lst = ''to=functions.get_weather:\<newline>''"
    and "2 \<le> length lst"
  shows "classify_stream
           (map (\<lambda>t. (t, None)) pre @
            [(lst, None), (a1, None), (a2, None), ('''', Some finish_reason)]) =
         [function_open_response (Some ''get_weather''),
          arguments_response (Some ''get_weather'') a1,
          arguments_response (Some ''get_weather'') a2,
          closing_response (Some ''function_call'')]"
proof -
  define W where "W = ''to=functions.get_weather:\<newline>''"
  let ?st0 = "\<lparr>cur_text = '''', func_name = None, response_type = None\<rparr>"
  let ?st1 = "\<lparr>cur_text = concat pre, func_name = None, response_type = None\<rparr>"
  let ?st2 = "\<lparr>cur_text = W, func_name = Some ''get_weather'', response_type = Some Function\<rparr>"
  have lenW: "length W = 26"
    unfolding W_def by simp
  have head: "CHR '':'' \<notin> set (take 24 W)"
    unfolding W_def by simp
  have l: "lstrip W \<noteq> '':\<newline>''"
    and m: "re_search (strip W) = Some ''get_weather''"
    and n: "strip ''get_weather'' = ''get_weather''"
    unfolding W_def by code_simp+
  have split: "concat pre @ lst = W"
    using assms(1) by (simp only: W_def)
  have "length (concat pre) + length lst = 26"
    using split lenW by (metis length_append)
  then have short: "length (concat pre) \<le> 24"
    using assms(2) by simp
  have "concat pre = take (length (concat pre)) W"
    using split by (metis append_eq_conv_conj)
  also have "\<dots> = take (length (concat pre)) (take 24 W)"
    using short by (simp only: take_take min_absorb1)
  finally have "set (concat pre) \<subseteq> set (take 24 W)"
    by (metis set_take_subset)
  then have no_colon: "CHR '':'' \<notin> set (concat pre)"
    using head by blast
  have pre_steps: "stream_loop ?st0 (map (\<lambda>t. (t, None)) pre @
            [(lst, None), (a1, None), (a2, None), ('''', Some finish_reason)]) =
        stream_loop ?st1 [(lst, None), (a1, None), (a2, None), ('''', Some finish_reason)]"
    using stream_loop_no_colon[of ?st0 pre] no_colon by simp
  have detect:
    "stream_step ?st1 (lst, None) = (?st2, [function_open_response (Some ''get_weather'')])"
    using l m by (simp add: stream_step_def Let_def split n)
  show ?thesis
    unfolding classify_stream_def pre_steps
    using detect by (simp add: stream_step_def Let_def)
qed

text \<open>
  An instance, with the pieces \<open>to=functions.\<close>, \<open>get_weather\<close> and the separator, the
  two argument increments of the scenario and the finish reason \<^verbatim>\<open>"stop"\<close>.
\<close>

theorem classify_stream_function_call_witness:
  "classify_stream
     [(''to=functions.'', None), (''get_weather'', None), ('':\<newline>'', None),
      (''{'' @ [CHR 0x22] @ ''city'' @ [CHR 0x22] @ '':'', None),
      ([CHR 0x22] @ ''NYC'' @ [CHR 0x22] @ ''}'', None), ('''', Some ''stop'')] =
   [function_open_response (Some ''get_weather''),
    arguments_response (Some ''get_weather'') (''{'' @ [CHR 0x22] @ ''city'' @ [CHR 0x22] @ '':''),
    arguments_response (Some ''get_weather'') ([CHR 0x22] @ ''NYC'' @ [CHR 0x22] @ ''}''),
    closing_response (Some ''function_call'')]"
proof -
  have c: "concat [''to=functions.'', ''get_weather''] @ '':\<newline>'' =
           ''to=functions.get_weather:\<newline>''"
    by simp
  have len: "2 \<le> length '':\<newline>''" by simp
  show ?thesis
    using classify_stream_function_call[OF c len,
        of "''{'' @ [CHR 0x22] @ ''city'' @ [CHR 0x22] @ '':''"
           "[CHR 0x22] @ ''NYC'' @ [CHR 0x22] @ ''}''" "''stop''"]
    by simp
qed

text \<open>
  The claim as stated fails when the text up to \<open>{"city":\<close> arrives as one increment: the
  increment in which the pattern is found opens the call and none of its text is emitted
  as arguments, so only three deltas follow.
\<close>

theorem classify_stream_single_increment:
  "classify_stream
     [(''to=functions.get_weather:\<newline>{'' @ [CHR 0x22] @ ''city'' @ [CHR 0x22] @ '':'', None),
      ([CHR 0x22] @ ''NYC'' @ [CHR 0x22] @ ''}'', None), ('''', Some ''stop'')] =
   [function_open_response (Some ''get_weather''),
    arguments_response (Some ''get_weather'') ([CHR 0x22] @ ''NYC'' @ [CHR 0x22] @ ''}''),
    closing_response (Some ''function_call'')]"
  by code_simp

end
